theory Spec2Isabelle
  imports Complex_Main "HOL-Library.Multiset"
begin

section \<open>Errors\<close>

text \<open>
  The Python exceptions the modelled code can raise. A function that may raise returns
  \<open>error + 'a\<close>, with \<open>Inl\<close> for the exception.
\<close>

datatype error = ValueError | TypeError | IndexError | KeyError | ZeroDivisionError | OverflowError

section \<open>core/types.py: the wrappers' comparisons\<close>

text \<open>
  \<open>YAMLObjectWrapper\<close> compares two wrappers through their \<open>value\<close> fields. Only
  \<open>__eq__\<close> and \<open>__gt__\<close> look at the values; the other four are derived from them, as
  in the source.
\<close>

definition wrapper_eq :: "'a \<Rightarrow> 'a \<Rightarrow> bool" where
  "wrapper_eq v w = (v = w)"

definition wrapper_gt :: "'a::linorder \<Rightarrow> 'a \<Rightarrow> bool" where
  "wrapper_gt v w = (v > w)"

definition wrapper_ne :: "'a \<Rightarrow> 'a \<Rightarrow> bool" where
  "wrapper_ne v w = (\<not> wrapper_eq v w)"

definition wrapper_le :: "'a::linorder \<Rightarrow> 'a \<Rightarrow> bool" where
  "wrapper_le v w = (\<not> wrapper_gt v w)"

definition wrapper_ge :: "'a::linorder \<Rightarrow> 'a \<Rightarrow> bool" where
  "wrapper_ge v w = (wrapper_eq v w \<or> wrapper_gt v w)"

definition wrapper_lt :: "'a::linorder \<Rightarrow> 'a \<Rightarrow> bool" where
  "wrapper_lt v w = (\<not> wrapper_ge v w)"

section \<open>core/types.py: timedelta, Time and TimeInterval\<close>

text \<open>
  A \<open>datetime.timedelta\<close> is an exact count of microseconds, normalised by the library
  into \<open>days\<close>, \<open>seconds\<close> (0 to 86399) and \<open>microseconds\<close> (0 to 999999), with
  \<open>days\<close> between -999999999 and 999999999. It is modelled by the count itself.
  The readings of \<open>perf_counter()\<close> are floats. \<open>update_info\<close> is the only modelled
  function that computes with them, and there they are taken as rationals: the
  difference of two readings is exact, \<open>timedelta(seconds=x)\<close> rounds \<open>x\<close> to whole
  microseconds, half to even, and \<open>total_seconds()\<close> divides the count by 1000000.
  The frame rate conversions of \<open>Output\<close> (\<open>_calculate_frame\<close>, \<open>_calculate_seconds\<close>,
  \<open>to_frame\<close>, \<open>to_time\<close> and the two for intervals) are chains of double operations
  whose results depend on the rounding of each of them; they are not modelled.
\<close>

type_synonym timedelta = int

definition td_days :: "timedelta \<Rightarrow> int" where
  "td_days td = td div 86400000000"

definition td_seconds :: "timedelta \<Rightarrow> int" where
  "td_seconds td = (td div 1000000) mod 86400"

definition td_microseconds :: "timedelta \<Rightarrow> int" where
  "td_microseconds td = td mod 1000000"

definition total_seconds :: "timedelta \<Rightarrow> rat" where
  "total_seconds td = of_int td / 1000000"

definition py_round :: "rat \<Rightarrow> int" where
  "py_round x =
     (let f = \<lfloor>x\<rfloor>; d = x - of_int f
      in if d < 1 / 2 then f else if 1 / 2 < d then f + 1 else if even f then f else f + 1)"

definition timedelta_seconds :: "rat \<Rightarrow> error + timedelta" where
  "timedelta_seconds x =
     (let us = py_round (x * 1000000)
      in if - 999999999 \<le> td_days us \<and> td_days us \<le> 999999999 then Inr us
         else Inl OverflowError)"

datatype Frame = Frame_obj (Frame_value: int)

datatype FrameInterval = FrameInterval_obj (FrameInterval_value: int)

datatype Time = Time_obj (Time_value: timedelta)

datatype TimeInterval = TimeInterval_obj (TimeInterval_value: timedelta)

text \<open>\<open>TimeInterval(seconds=x)\<close>, the keyword branch of the constructor, and \<open>float\<close> of a
  TimeInterval.\<close>

definition TimeInterval_seconds :: "rat \<Rightarrow> error + TimeInterval" where
  "TimeInterval_seconds x =
     (case timedelta_seconds x of Inl e \<Rightarrow> Inl e | Inr td \<Rightarrow> Inr (TimeInterval_obj td))"

definition TimeInterval_float :: "TimeInterval \<Rightarrow> rat" where
  "TimeInterval_float t = total_seconds (TimeInterval_value t)"

section \<open>core/types.py: Frame and FrameInterval\<close>

text \<open>
  The constructors dispatch on the dynamic type of their argument; \<open>py_value\<close> lists the
  types that reach them, \<open>PyOther\<close> standing for any other object.
\<close>

datatype py_value =
    PyInt int
  | PyFrame Frame
  | PyFrameInterval FrameInterval
  | PyTime Time
  | PyTimeInterval TimeInterval
  | PyOther

text \<open>The \<open>int\<close> branch of \<open>Frame.__init__\<close>: the only place that checks the sign.\<close>

definition Frame_int :: "int \<Rightarrow> error + Frame" where
  "Frame_int init_value = (if init_value < 0 then Inl ValueError else Inr (Frame_obj init_value))"

text \<open>
  \<open>Frame.__init__\<close> and \<open>FrameInterval.__init__\<close>. The \<open>Time\<close> and \<open>TimeInterval\<close>
  branches call \<open>main_window().current_output.to_frame\<close> and \<open>to_frame_interval\<close>, taken
  here as the parameters \<open>to_frame\<close> and \<open>to_frame_interval\<close>.
\<close>

fun Frame_init :: "(Time \<Rightarrow> error + Frame) \<Rightarrow> py_value \<Rightarrow> error + Frame" where
  "Frame_init to_frame (PyInt init_value) = Frame_int init_value"
| "Frame_init to_frame (PyFrame init_value) = Inr (Frame_obj (Frame_value init_value))"
| "Frame_init to_frame (PyTime init_value) =
     (case to_frame init_value of Inl e \<Rightarrow> Inl e
      | Inr f \<Rightarrow> Inr (Frame_obj (Frame_value f)))"
| "Frame_init to_frame _ = Inl TypeError"

fun FrameInterval_init ::
  "(TimeInterval \<Rightarrow> error + FrameInterval) \<Rightarrow> py_value \<Rightarrow> error + FrameInterval" where
  "FrameInterval_init to_frame_interval (PyInt init_value) = Inr (FrameInterval_obj init_value)"
| "FrameInterval_init to_frame_interval (PyFrameInterval init_value) =
     Inr (FrameInterval_obj (FrameInterval_value init_value))"
| "FrameInterval_init to_frame_interval (PyTimeInterval init_value) =
     (case to_frame_interval init_value of Inl e \<Rightarrow> Inl e
      | Inr d \<Rightarrow> Inr (FrameInterval_obj (FrameInterval_value d)))"
| "FrameInterval_init to_frame_interval _ = Inl TypeError"

text \<open>\<open>Frame.__add__\<close> and \<open>Frame.__sub__\<close> build their result with the checking constructor.\<close>

definition Frame_add :: "Frame \<Rightarrow> FrameInterval \<Rightarrow> error + Frame" where
  "Frame_add self other = Frame_int (Frame_value self + FrameInterval_value other)"

fun Frame_sub :: "Frame \<Rightarrow> py_value \<Rightarrow> error + py_value" where
  "Frame_sub self (PyFrame other) =
     Inr (PyFrameInterval (FrameInterval_obj (Frame_value self - Frame_value other)))"
| "Frame_sub self (PyFrameInterval other) =
     (case Frame_int (Frame_value self - FrameInterval_value other) of Inl e \<Rightarrow> Inl e
      | Inr f \<Rightarrow> Inr (PyFrame f))"
| "Frame_sub self _ = Inl TypeError"

text \<open>
  \<open>Frame.__iadd__\<close> and \<open>Frame.__isub__\<close> assign to \<open>self.value\<close> and return \<open>self\<close>:
  the result is the mutated object. \<open>__isub__\<close> reads \<open>other.value\<close> of either operand
  type.
\<close>

definition Frame_iadd :: "Frame \<Rightarrow> FrameInterval \<Rightarrow> Frame" where
  "Frame_iadd self other = Frame_obj (Frame_value self + FrameInterval_value other)"

definition Frame_isub :: "Frame \<Rightarrow> FrameInterval \<Rightarrow> Frame" where
  "Frame_isub self other = Frame_obj (Frame_value self - FrameInterval_value other)"

definition FrameInterval_add :: "FrameInterval \<Rightarrow> FrameInterval \<Rightarrow> FrameInterval" where
  "FrameInterval_add self other =
     FrameInterval_obj (FrameInterval_value self + FrameInterval_value other)"

definition FrameInterval_sub :: "FrameInterval \<Rightarrow> FrameInterval \<Rightarrow> FrameInterval" where
  "FrameInterval_sub self other =
     FrameInterval_obj (FrameInterval_value self - FrameInterval_value other)"

definition FrameInterval_isub :: "FrameInterval \<Rightarrow> FrameInterval \<Rightarrow> FrameInterval" where
  "FrameInterval_isub self other =
     FrameInterval_obj (FrameInterval_value self - FrameInterval_value other)"

section \<open>utils/utils.py: strfdelta\<close>

text \<open>Decimal formatting: \<open>'{:d}'\<close>, \<open>'{:0wd}'\<close> (zero padded, the sign first) and \<open>'{:wd}'\<close>
  (right aligned with spaces).\<close>

definition digit_char :: "nat \<Rightarrow> char" where
  "digit_char d = ''0123456789'' ! d"

fun str_nat :: "nat \<Rightarrow> string" where
  "str_nat n = (if n < 10 then [digit_char n] else str_nat (n div 10) @ [digit_char (n mod 10)])"

declare str_nat.simps [simp del]

definition format_d :: "int \<Rightarrow> string" where
  "format_d i = (if i < 0 then CHR ''-'' # str_nat (nat (- i)) else str_nat (nat i))"

definition format_0d :: "nat \<Rightarrow> int \<Rightarrow> string" where
  "format_0d w i =
     (let ds = str_nat (nat \<bar>i\<bar>)
      in if i < 0 then CHR ''-'' # replicate (w - 1 - length ds) CHR ''0'' @ ds
         else replicate (w - length ds) CHR ''0'' @ ds)"

definition format_wd :: "nat \<Rightarrow> int \<Rightarrow> string" where
  "format_wd w i = (let s = format_d i in replicate (w - length s) CHR '' '' @ s)"

text \<open>
  \<open>DeltaTemplate\<close> is \<open>string.Template\<close> with the delimiter \<open>%\<close>. \<open>substitute\<close> replaces,
  from left to right, \<open>%%\<close> by \<open>%\<close>, \<open>%name\<close> and \<open>%{name}\<close> by the mapping's value
  for the longest identifier \<open>name\<close> (KeyError when the mapping has none), and raises
  ValueError at any other \<open>%\<close>. The scanner below reads the format one character at a
  time; its mode says what the characters read so far have begun.
\<close>

definition id_start :: "char \<Rightarrow> bool" where
  "id_start c = (c \<in> set ''_abcdefghijklmnopqrstuvwxyzABCDEFGHIJKLMNOPQRSTUVWXYZ'')"

definition id_char :: "char \<Rightarrow> bool" where
  "id_char c = (id_start c \<or> c \<in> set ''0123456789'')"

datatype scan_mode = Literal | Delimiter | Named string | Braced string

definition emit :: "string \<Rightarrow> error + string \<Rightarrow> error + string" where
  "emit v r = (case r of Inl e \<Rightarrow> Inl e | Inr s \<Rightarrow> Inr (v @ s))"

fun substitute :: "(string \<Rightarrow> string option) \<Rightarrow> scan_mode \<Rightarrow> string \<Rightarrow> error + string" where
  "substitute d Literal [] = Inr []"
| "substitute d Literal (c # cs) =
     (if c = CHR ''%'' then substitute d Delimiter cs else emit [c] (substitute d Literal cs))"
| "substitute d Delimiter [] = Inl ValueError"
| "substitute d Delimiter (c # cs) =
     (if c = CHR ''%'' then emit ''%'' (substitute d Literal cs)
      else if c = CHR ''{'' then substitute d (Braced []) cs
      else if id_start c then substitute d (Named [c]) cs
      else Inl ValueError)"
| "substitute d (Named n) [] = (case d n of None \<Rightarrow> Inl KeyError | Some v \<Rightarrow> Inr v)"
| "substitute d (Named n) (c # cs) =
     (if id_char c then substitute d (Named (n @ [c])) cs
      else case d n of None \<Rightarrow> Inl KeyError
        | Some v \<Rightarrow>
            if c = CHR ''%'' then emit v (substitute d Delimiter cs)
            else emit (v @ [c]) (substitute d Literal cs))"
| "substitute d (Braced n) [] = Inl ValueError"
| "substitute d (Braced n) (c # cs) =
     (if (if n = [] then id_start c else id_char c) then substitute d (Braced (n @ [c])) cs
      else if c = CHR ''}'' \<and> n \<noteq> [] then
        (case d n of None \<Rightarrow> Inl KeyError | Some v \<Rightarrow> emit v (substitute d Literal cs))
      else Inl ValueError)"

text \<open>\<open>strfdelta\<close>; \<open>td\<close> is \<open>time.value\<close> of the \<open>Time\<close> or \<open>TimeInterval\<close> passed.\<close>

definition strfdelta_fields :: "timedelta \<Rightarrow> (string \<times> string) list" where
  "strfdelta_fields td =
     (let hours = td_seconds td div 3600;
          minutes = td_seconds td div 60;
          seconds = td_seconds td mod 60;
          milliseconds = td_microseconds td div 1000
      in [(''D'', format_d (td_days td)),
          (''H'', format_0d 2 hours),
          (''M'', format_0d 2 minutes),
          (''S'', format_0d 2 seconds),
          (''Z'', format_0d 3 milliseconds),
          (''h'', format_d hours),
          (''m'', format_wd 2 minutes),
          (''s'', format_wd 2 seconds)])"

definition strfdelta :: "timedelta \<Rightarrow> string \<Rightarrow> error + string" where
  "strfdelta td output_format = substitute (map_of (strfdelta_fields td)) Literal output_format"

definition Time_str :: "Time \<Rightarrow> error + string" where
  "Time_str t = strfdelta (Time_value t) ''%h:%M:%S.%Z''"

definition TimeInterval_str :: "TimeInterval \<Rightarrow> error + string" where
  "TimeInterval_str t = strfdelta (TimeInterval_value t) ''%h:%M:%S.%Z''"

section \<open>toolbars/benchmark.py: the frame source\<close>

text \<open>
  \<open>clip.get_frame_async(n)\<close> returns a future. A future is identified by the position
  of its request among all requests made, and carries the frame number asked for. The
  frame source is outside the repository; the model records what it is asked
  (\<open>requests\<close>), which futures have not resolved yet (\<open>in_flight\<close>), which futures
  carry \<open>_request_next_frame_unsequenced\<close> as their done-callback (\<open>callbacks\<close>), and the
  order of requests and resolutions (\<open>history\<close>). Every request resolves with a frame;
  a request never resolves inside the call that makes it.
\<close>

datatype future = Future (future_id: nat) (future_frame: int)

datatype source_event = Requested future | Resolved future

text \<open>What \<open>update_info\<close> writes to the label: the operands of its format string.\<close>

record info =
  info_frames_done :: FrameInterval
  info_total_frames :: FrameInterval
  info_run_time :: string
  info_fps :: rat

section \<open>toolbars/benchmark.py: BenchmarkToolbar\<close>

text \<open>
  The toolbar's widgets (the values of the three frame controls, the two check boxes,
  the checked state of the Run button, whether the controls are enabled, the label),
  its attributes, the two timers (active or not) and the frame source. The deque
  \<open>buffer\<close> is a list with the left end first; \<open>buffer_maxlen\<close> is its \<open>maxlen\<close>.
\<close>

record BenchmarkToolbar =
  start_frame_control :: Frame
  end_frame_control :: Frame
  total_frames_control :: FrameInterval
  prefetch_checkbox :: bool
  unsequenced_checkbox :: bool
  run_abort_button :: bool
  ui_editable :: bool
  info_label :: "info option"
  running :: bool
  unsequenced :: bool
  buffer :: "future list"
  buffer_maxlen :: "nat option"
  run_start_time :: rat
  start_frame :: Frame
  end_frame :: Frame
  total_frames :: FrameInterval
  frames_left :: FrameInterval
  sequenced_timer :: bool
  update_info_timer :: bool
  requests :: "int list"
  in_flight :: "future list"
  callbacks :: "future list"
  history :: "source_event list"

text \<open>The toolbar after \<open>__init__\<close>, with the widgets' initial values.\<close>

definition init :: BenchmarkToolbar where
  "init =
     \<lparr>start_frame_control = Frame_obj 0, end_frame_control = Frame_obj 0,
      total_frames_control = FrameInterval_obj 1,
      prefetch_checkbox = True, unsequenced_checkbox = True,
      run_abort_button = False, ui_editable = True, info_label = None,
      running = False, unsequenced = False, buffer = [], buffer_maxlen = None,
      run_start_time = 0, start_frame = Frame_obj 0, end_frame = Frame_obj 0,
      total_frames = FrameInterval_obj 0, frames_left = FrameInterval_obj 0,
      sequenced_timer = False, update_info_timer = False,
      requests = [], in_flight = [], callbacks = [], history = []\<rparr>"

definition get_frame_async :: "int \<Rightarrow> BenchmarkToolbar \<Rightarrow> future \<times> BenchmarkToolbar" where
  "get_frame_async n s =
     (let fut = Future (length (requests s)) n
      in (fut, s\<lparr>requests := requests s @ [n], in_flight := in_flight s @ [fut],
                  history := history s @ [Requested fut]\<rparr>))"

definition add_done_callback :: "future \<Rightarrow> BenchmarkToolbar \<Rightarrow> BenchmarkToolbar" where
  "add_done_callback fut s = s\<lparr>callbacks := callbacks s @ [fut]\<rparr>"

text \<open>
  \<open>future.result()\<close> blocks until the future has resolved: one still in flight resolves
  now, one that has resolved already returns at once.
\<close>

definition result :: "future \<Rightarrow> BenchmarkToolbar \<Rightarrow> BenchmarkToolbar" where
  "result fut s =
     (if fut \<in> set (in_flight s)
      then s\<lparr>in_flight := remove1 fut (in_flight s), history := history s @ [Resolved fut]\<rparr>
      else s)"

text \<open>\<open>deque.appendleft\<close> drops from the right end what exceeds \<open>maxlen\<close>; \<open>deque.pop\<close>
  takes the right end and raises IndexError on an empty deque.\<close>

definition appendleft :: "future \<Rightarrow> BenchmarkToolbar \<Rightarrow> BenchmarkToolbar" where
  "appendleft fut s =
     s\<lparr>buffer := (case buffer_maxlen s of None \<Rightarrow> fut # buffer s
                  | Some m \<Rightarrow> take m (fut # buffer s))\<rparr>"

definition pop :: "BenchmarkToolbar \<Rightarrow> error + future \<times> BenchmarkToolbar" where
  "pop s =
     (if buffer s = [] then Inl IndexError
      else Inr (last (buffer s), s\<lparr>buffer := butlast (buffer s)\<rparr>))"

definition set_ui_editable :: "bool \<Rightarrow> BenchmarkToolbar \<Rightarrow> BenchmarkToolbar" where
  "set_ui_editable new_state s = s\<lparr>ui_editable := new_state\<rparr>"

text \<open>
  \<open>update_info\<close>; \<open>now\<close> is the reading of \<open>perf_counter()\<close>. The division is the
  one of the source: by \<open>float(run_time)\<close>, with no test of the divisor before it.
\<close>

definition update_info :: "rat \<Rightarrow> BenchmarkToolbar \<Rightarrow> error + BenchmarkToolbar" where
  "update_info now s =
     (case TimeInterval_seconds (now - run_start_time s) of Inl e \<Rightarrow> Inl e
      | Inr run_time \<Rightarrow>
          let frames_done = FrameInterval_sub (total_frames s) (frames_left s)
          in if TimeInterval_float run_time = 0 then Inl ZeroDivisionError
             else
               (case strfdelta (TimeInterval_value run_time) ''%M:%S.%Z'' of Inl e \<Rightarrow> Inl e
                | Inr t \<Rightarrow>
                    Inr (s\<lparr>info_label := Some
                      \<lparr>info_frames_done = frames_done, info_total_frames = total_frames s,
                       info_run_time = t,
                       info_fps = of_int (FrameInterval_value frames_done)
                                  / TimeInterval_float run_time\<rparr>\<rparr>)))"

lemma update_info_button:
  "update_info now s = Inr s' \<Longrightarrow> run_abort_button s' = run_abort_button s"
  by (auto simp: update_info_def Let_def split: sum.splits if_splits)

text \<open>
  \<open>abort\<close>. The stop of \<open>update_info_timer\<close> is queued in the source and taken as done
  here. \<open>run_abort_button.click()\<close> on the checked button unchecks it and emits
  \<open>clicked(False)\<close>, whose slot \<open>on_run_abort_pressed\<close> enables the controls and calls
  \<open>abort\<close> again: the recursive call below.
\<close>

function abort :: "rat \<Rightarrow> BenchmarkToolbar \<Rightarrow> error + BenchmarkToolbar" where
  "abort now s =
     (case (if running s then update_info now s else Inr s) of Inl e \<Rightarrow> Inl e
      | Inr s1 \<Rightarrow>
          if run_abort_button s1
          then abort now
                 (set_ui_editable True
                    (s1\<lparr>running := False, update_info_timer := False, run_abort_button := False\<rparr>))
          else Inr (s1\<lparr>running := False, update_info_timer := False\<rparr>))"
  by pat_completeness auto
termination
proof (relation "measure (\<lambda>(now, s). if run_abort_button s then 1 else 0)")
  show "wf (measure (\<lambda>(now, s). if run_abort_button s then 1 else (0::nat)))"
    by simp
next
  fix now s x2
  assume a: "(if running s then update_info now s else Inr s) = Inr x2"
    and b: "run_abort_button x2"
  from a have "run_abort_button x2 = run_abort_button s"
    by (auto split: if_splits dest: update_info_button)
  with b show "((now, set_ui_editable True
                  (x2\<lparr>running := False, update_info_timer := False, run_abort_button := False\<rparr>)),
               now, s)
        \<in> measure (\<lambda>(now, s). if run_abort_button s then 1 else 0)"
    by (simp add: set_ui_editable_def)
qed

declare abort.simps [simp del]

text \<open>\<open>self.end_frame + FrameInterval(1) - self.frames_left\<close>, the frame both request
  functions ask for next. Each of the two operators builds a Frame and may raise.\<close>

definition next_frame :: "BenchmarkToolbar \<Rightarrow> error + Frame" where
  "next_frame s =
     (case Frame_add (end_frame s) (FrameInterval_obj 1) of Inl e \<Rightarrow> Inl e
      | Inr f \<Rightarrow>
          (case Frame_sub f (PyFrameInterval (frames_left s)) of Inl e \<Rightarrow> Inl e
           | Inr (PyFrame g) \<Rightarrow> Inr g
           | Inr _ \<Rightarrow> Inl TypeError))"

definition request_next_frame_sequenced ::
  "rat \<Rightarrow> BenchmarkToolbar \<Rightarrow> error + BenchmarkToolbar" where
  "request_next_frame_sequenced now s =
     (if wrapper_le (FrameInterval_value (frames_left s)) (FrameInterval_value (FrameInterval_obj 0))
      then abort now s
      else
        (case pop s of Inl e \<Rightarrow> Inl e
         | Inr (fut, s1) \<Rightarrow>
             let s2 = result fut s1
             in (case next_frame s2 of Inl e \<Rightarrow> Inl e
                 | Inr nf \<Rightarrow>
                     let s3 =
                       (if wrapper_le (Frame_value nf) (Frame_value (end_frame s2))
                        then (case get_frame_async (Frame_value nf) s2 of
                                (new_future, s') \<Rightarrow> appendleft new_future s')
                        else s2)
                     in Inr (s3\<lparr>frames_left :=
                                FrameInterval_isub (frames_left s3) (FrameInterval_obj 1)\<rparr>))))"

definition request_next_frame_unsequenced ::
  "future option \<Rightarrow> rat \<Rightarrow> BenchmarkToolbar \<Rightarrow> error + BenchmarkToolbar" where
  "request_next_frame_unsequenced fut now s =
     (if wrapper_le (FrameInterval_value (frames_left s)) (FrameInterval_value (FrameInterval_obj 0))
      then abort now s
      else
        (case (if running s
               then (case next_frame s of Inl e \<Rightarrow> Inl e
                     | Inr nf \<Rightarrow>
                         (case get_frame_async (Frame_value nf) s of
                            (new_future, s') \<Rightarrow> Inr (add_done_callback new_future s')))
               else Inr s) of
           Inl e \<Rightarrow> Inl e
         | Inr s1 \<Rightarrow>
             let s2 = (case fut of None \<Rightarrow> s1 | Some f \<Rightarrow> result f s1)
             in Inr (s2\<lparr>frames_left :=
                        FrameInterval_isub (frames_left s2) (FrameInterval_obj 1)\<rparr>)))"

text \<open>
  \<open>run\<close>. \<open>cpus\<close> is what \<open>get_usable_cpus_count()\<close> returns. Clearing the frame
  cache and copying the pixmap touch nothing the toolbar reads and are left out.
  \<open>deque([], n)\<close> raises ValueError for a negative \<open>n\<close>. \<open>run_loop\<close> is the
  \<open>for offset in range(...)\<close> loop, over the offsets still to come, and \<open>run_body\<close>
  its body.
\<close>

definition concurrent_requests_count :: "BenchmarkToolbar \<Rightarrow> int \<Rightarrow> int" where
  "concurrent_requests_count s cpus = (if prefetch_checkbox s then cpus else 1)"

definition run_body :: "rat \<Rightarrow> nat \<Rightarrow> BenchmarkToolbar \<Rightarrow> error + BenchmarkToolbar" where
  "run_body now offset s =
     (if unsequenced s then request_next_frame_unsequenced None now s
      else (case Frame_add (start_frame s) (FrameInterval_obj (int offset)) of
              Inl e \<Rightarrow> Inl e
            | Inr frame \<Rightarrow>
                (case get_frame_async (Frame_value frame) s of
                   (fut, s') \<Rightarrow> Inr (appendleft fut s'))))"

fun run_loop :: "rat \<Rightarrow> nat list \<Rightarrow> BenchmarkToolbar \<Rightarrow> error + BenchmarkToolbar" where
  "run_loop now [] s = Inr s"
| "run_loop now (offset # offsets) s =
     (case run_body now offset s of Inl e \<Rightarrow> Inl e | Inr s' \<Rightarrow> run_loop now offsets s')"

definition run :: "rat \<Rightarrow> int \<Rightarrow> BenchmarkToolbar \<Rightarrow> error + BenchmarkToolbar" where
  "run now cpus s =
     (let s1 = s\<lparr>start_frame := start_frame_control s, end_frame := end_frame_control s,
                 total_frames := total_frames_control s,
                 frames_left := total_frames_control s\<rparr>;
          c = concurrent_requests_count s1 cpus;
          s2 = s1\<lparr>unsequenced := unsequenced_checkbox s1\<rparr>
      in if \<not> unsequenced s2 \<and> c < 0 then Inl ValueError
         else
           let s3 = (if \<not> unsequenced s2
                     then s2\<lparr>buffer := [], buffer_maxlen := Some (nat c), sequenced_timer := True\<rparr>
                     else s2);
               s4 = s3\<lparr>running := True, run_start_time := now\<rparr>
           in (case run_loop now [0 ..< nat (min (FrameInterval_value (frames_left s4)) c)] s4 of
                 Inl e \<Rightarrow> Inl e
               | Inr s5 \<Rightarrow> Inr (s5\<lparr>update_info_timer := True\<rparr>)))"

definition on_run_abort_pressed ::
  "bool \<Rightarrow> rat \<Rightarrow> int \<Rightarrow> BenchmarkToolbar \<Rightarrow> error + BenchmarkToolbar" where
  "on_run_abort_pressed checked now cpus s =
     (if checked then run now cpus (set_ui_editable False s)
      else abort now (set_ui_editable True s))"

section \<open>The events the toolbar reacts to\<close>

text \<open>
  The toolbar is driven by Qt's event loop and the frame source. \<open>Click\<close>: the user
  clicks the Run button, which toggles its checked state and calls
  \<open>on_run_abort_pressed\<close>. \<open>Sequenced_timeout\<close> and \<open>Update_info_timeout\<close>: a timer
  fires, which it does only while active. \<open>Future_done\<close>: the frame source resolves a
  future in flight and runs its done-callback, if it has one. \<open>Edit_controls\<close>: the user
  changes the controls. Each handler runs to its end before the next event; an
  exception ends the trace.
\<close>

datatype event =
    Click rat int
  | Sequenced_timeout rat
  | Update_info_timeout rat
  | Future_done future rat
  | Edit_controls Frame Frame FrameInterval bool bool

fun enabled :: "event \<Rightarrow> BenchmarkToolbar \<Rightarrow> bool" where
  "enabled (Click now cpus) s = True"
| "enabled (Sequenced_timeout now) s = sequenced_timer s"
| "enabled (Update_info_timeout now) s = update_info_timer s"
| "enabled (Future_done fut now) s = (fut \<in> set (in_flight s))"
| "enabled (Edit_controls st en tot pre unseq) s = ui_editable s"

fun fire :: "event \<Rightarrow> BenchmarkToolbar \<Rightarrow> error + BenchmarkToolbar" where
  "fire (Click now cpus) s =
     on_run_abort_pressed (\<not> run_abort_button s) now cpus
       (s\<lparr>run_abort_button := \<not> run_abort_button s\<rparr>)"
| "fire (Sequenced_timeout now) s = request_next_frame_sequenced now s"
| "fire (Update_info_timeout now) s = update_info now s"
| "fire (Future_done fut now) s =
     (if fut \<in> set (callbacks s) then request_next_frame_unsequenced (Some fut) now (result fut s)
      else Inr (result fut s))"
| "fire (Edit_controls st en tot pre unseq) s =
     Inr (s\<lparr>start_frame_control := st, end_frame_control := en, total_frames_control := tot,
            prefetch_checkbox := pre, unsequenced_checkbox := unseq\<rparr>)"

fun exec :: "event list \<Rightarrow> BenchmarkToolbar \<Rightarrow> error + BenchmarkToolbar" where
  "exec [] s = Inr s"
| "exec (e # es) s = (case fire e s of Inl err \<Rightarrow> Inl err | Inr s' \<Rightarrow> exec es s')"

text \<open>\<open>feasible es s\<close>: from \<open>s\<close>, every event of \<open>es\<close> is enabled when its turn comes.\<close>

fun feasible :: "event list \<Rightarrow> BenchmarkToolbar \<Rightarrow> bool" where
  "feasible [] s = True"
| "feasible (e # es) s =
     (enabled e s \<and> (case fire e s of Inl err \<Rightarrow> True | Inr s' \<Rightarrow> feasible es s'))"

section \<open>Auxiliary predicates\<close>

text \<open>
  \<open>same_run s s'\<close>: \<open>s'\<close> differs from \<open>s\<close> at most in the label, the enabling of the
  controls and the three flags \<open>abort\<close> clears. \<open>same_widgets s s'\<close>: \<open>s'\<close> differs at
  most in the buffer, \<open>frames_left\<close> and the frame source. \<open>flags_inv\<close>: the Run button
  is checked exactly while a run is in progress, and \<open>update_info_timer\<close> is active
  only then.
\<close>

definition same_run :: "BenchmarkToolbar \<Rightarrow> BenchmarkToolbar \<Rightarrow> bool" where
  "same_run s s' =
     (s' = s\<lparr>info_label := info_label s', ui_editable := ui_editable s', running := running s',
             update_info_timer := update_info_timer s',
             run_abort_button := run_abort_button s'\<rparr>)"

definition same_widgets :: "BenchmarkToolbar \<Rightarrow> BenchmarkToolbar \<Rightarrow> bool" where
  "same_widgets s s' =
     (s' = s\<lparr>buffer := buffer s', frames_left := frames_left s', requests := requests s',
             in_flight := in_flight s', callbacks := callbacks s', history := history s'\<rparr>)"

definition flags_inv :: "BenchmarkToolbar \<Rightarrow> bool" where
  "flags_inv s = (running s = run_abort_button s \<and> (update_info_timer s \<longrightarrow> running s))"

text \<open>
  \<open>starts_run e s\<close>: the event is a click on the unchecked Run button, which starts a run.
  \<open>during_run es s\<close>: from \<open>s\<close>, every event of \<open>es\<close> is enabled when its turn comes
  and none starts a run: the events of the run in progress. \<open>quiescent s\<close>: no request is
  outstanding, \<open>sequenced_timer\<close> is not active if the run to start is unsequenced (a
  sequenced run starts the timer itself), and the futures that carry the callback are
  among the requests made. \<open>run_inv k\<close> is what a run keeps: in unsequenced mode at
  most \<open>k\<close> futures in flight and no sequenced timer; in sequenced mode a deque of
  \<open>maxlen\<close> \<open>k\<close> holding distinct futures, among them all futures in flight, none of
  which carries the callback.
\<close>

fun starts_run :: "event \<Rightarrow> BenchmarkToolbar \<Rightarrow> bool" where
  "starts_run (Click now cpus) s = (\<not> run_abort_button s)"
| "starts_run _ s = False"

fun during_run :: "event list \<Rightarrow> BenchmarkToolbar \<Rightarrow> bool" where
  "during_run [] s = True"
| "during_run (e # es) s =
     (enabled e s \<and> \<not> starts_run e s
      \<and> (case fire e s of Inl err \<Rightarrow> True | Inr s' \<Rightarrow> during_run es s'))"

definition quiescent :: "BenchmarkToolbar \<Rightarrow> bool" where
  "quiescent s =
     (in_flight s = [] \<and> (unsequenced_checkbox s \<longrightarrow> \<not> sequenced_timer s)
      \<and> list_all (\<lambda>f. future_id f < length (requests s)) (callbacks s))"

definition sequenced_inv :: "nat \<Rightarrow> BenchmarkToolbar \<Rightarrow> bool" where
  "sequenced_inv k s =
     (buffer_maxlen s = Some k \<and> length (buffer s) \<le> k
      \<and> distinct (buffer s) \<and> distinct (in_flight s)
      \<and> set (in_flight s) \<subseteq> set (buffer s)
      \<and> set (buffer s) \<inter> set (callbacks s) = {}
      \<and> list_all (\<lambda>f. future_id f < length (requests s)) (buffer s)
      \<and> list_all (\<lambda>f. future_id f < length (requests s)) (callbacks s))"

definition unsequenced_inv :: "nat \<Rightarrow> BenchmarkToolbar \<Rightarrow> bool" where
  "unsequenced_inv k s = (\<not> sequenced_timer s \<and> length (in_flight s) \<le> k)"

definition run_inv :: "nat \<Rightarrow> BenchmarkToolbar \<Rightarrow> bool" where
  "run_inv k s = (if unsequenced s then unsequenced_inv k s else sequenced_inv k s)"


text \<open>
  \<open>never_early first c resolved pending h\<close> reads a history from its start, with the
  frames resolved so far and the frames of the requests in flight: at every request for
  a frame \<open>k\<close> with \<open>k - c\<close> in the range (not below \<open>first\<close>), a request for
  \<open>k - c\<close> has resolved and none for it is in flight.
\<close>

fun never_early :: "int \<Rightarrow> int \<Rightarrow> int list \<Rightarrow> int list \<Rightarrow> source_event list \<Rightarrow> bool" where
  "never_early first c resolved pending [] = True"
| "never_early first c resolved pending (Resolved f # h) =
     never_early first c (future_frame f # resolved) (remove1 (future_frame f) pending) h"
| "never_early first c resolved pending (Requested f # h) =
     ((future_frame f - c < first
       \<or> (future_frame f - c \<in> set resolved \<and> future_frame f - c \<notin> set pending))
      \<and> never_early first c resolved (future_frame f # pending) h)"

text \<open>
  \<open>resolved_after\<close> and \<open>pending_after\<close> are the two lists \<open>never_early\<close> carries, after a
  history has been read. In a sequenced run the \<open>n\<close>-th request (from 0) is for
  \<open>issue_frame a c n\<close>, where \<open>a\<close> is the first frame and \<open>c\<close> the concurrency: the
  first \<open>c\<close> requests are those of \<open>run\<close>, the later ones those of the timer, which
  start again at \<open>a\<close>; \<open>issued\<close> is the future of that request and \<open>news\<close> the futures
  of the requests \<open>run\<close> makes. \<open>order_inv\<close> is what a sequenced run keeps: the deque
  holds the last \<open>c\<close> requests, the newest first, and the history since the start of
  the run passes \<open>never_early\<close>, its pending frames being those of the futures in flight.
\<close>

fun resolved_after :: "int list \<Rightarrow> source_event list \<Rightarrow> int list" where
  "resolved_after R [] = R"
| "resolved_after R (Resolved f # h) = resolved_after (future_frame f # R) h"
| "resolved_after R (Requested f # h) = resolved_after R h"

fun pending_after :: "int list \<Rightarrow> source_event list \<Rightarrow> int list" where
  "pending_after P [] = P"
| "pending_after P (Resolved f # h) = pending_after (remove1 (future_frame f) P) h"
| "pending_after P (Requested f # h) = pending_after (future_frame f # P) h"

definition issue_frame :: "int \<Rightarrow> nat \<Rightarrow> nat \<Rightarrow> int" where
  "issue_frame a c n = (if n < c then a + int n else a + int n - int c)"

definition issued :: "nat \<Rightarrow> int \<Rightarrow> nat \<Rightarrow> nat \<Rightarrow> future" where
  "issued base a c n = Future (base + n) (issue_frame a c n)"

fun news :: "nat \<Rightarrow> int \<Rightarrow> nat list \<Rightarrow> future list" where
  "news b st [] = []"
| "news b st (off # offs) = Future b (st + int off) # news (Suc b) st offs"

definition order_inv :: "nat \<Rightarrow> int \<Rightarrow> nat \<Rightarrow> source_event list \<Rightarrow> BenchmarkToolbar \<Rightarrow> bool" where
  "order_inv base a c h0 s =
     (0 \<le> FrameInterval_value (frames_left s)
      \<and> FrameInterval_value (frames_left s) \<le> FrameInterval_value (total_frames s)
      \<and> Frame_value (end_frame s) + 1 - FrameInterval_value (total_frames s) = a
      \<and> 0 < c \<and> int c \<le> FrameInterval_value (total_frames s)
      \<and> buffer s = rev (map (issued base a c)
            [nat (FrameInterval_value (total_frames s) - FrameInterval_value (frames_left s)) ..<
             nat (FrameInterval_value (total_frames s) - FrameInterval_value (frames_left s)) + c])
      \<and> length (requests s)
          = base + c + nat (FrameInterval_value (total_frames s) - FrameInterval_value (frames_left s))
      \<and> (\<exists>h. history s = h0 @ h \<and> never_early a (int c) [] [] h
             \<and> mset (pending_after [] h) = image_mset future_frame (mset (in_flight s))
             \<and> (\<forall>f\<in>set (buffer s). f \<notin> set (in_flight s)
                    \<longrightarrow> future_frame f \<in> set (resolved_after [] h))))"

section \<open>Properties of the value types\<close>

lemma Frame_int_nonneg: "Frame_int n = Inr f \<Longrightarrow> 0 \<le> Frame_value f"
  by (auto simp: Frame_int_def split: if_splits)

lemma Frame_add_nonneg: "Frame_add a d = Inr f \<Longrightarrow> 0 \<le> Frame_value f"
  unfolding Frame_add_def by (rule Frame_int_nonneg)

lemma Frame_sub_nonneg:
  "Frame_sub a (PyFrameInterval d) = Inr (PyFrame f) \<Longrightarrow> 0 \<le> Frame_value f"
  by (auto simp: Frame_int_def split: if_splits sum.splits)

text \<open>
  C6. The claim: every Frame is non-negative; the constructor rejects a negative integer,
  and addition and subtraction of a FrameInterval, the in-place forms included, keep the
  value non-negative. The constructor does reject (\<open>Frame_int (- 2)\<close> is ValueError) and
  \<open>__add__\<close> and \<open>__sub__\<close> go through it (the three lemmas above), but \<open>__isub__\<close> and
  \<open>__iadd__\<close> assign to \<open>value\<close> without the check: from the valid \<open>Frame(3)\<close>,
  \<open>f -= FrameInterval(5)\<close> and \<open>f += FrameInterval(-5)\<close> both leave a Frame of value -2.
\<close>

theorem Frame_inplace_negative:
  "Frame_int 3 = Inr (Frame_obj 3)
   \<and> Frame_isub (Frame_obj 3) (FrameInterval_obj 5) = Frame_obj (- 2)
   \<and> Frame_iadd (Frame_obj 3) (FrameInterval_obj (- 5)) = Frame_obj (- 2)
   \<and> Frame_int (- 2) = Inl ValueError"
  by (simp add: Frame_int_def Frame_isub_def Frame_iadd_def)

text \<open>
  C7. For valid frames \<open>a\<close> and \<open>b\<close> (values at least 0) with \<open>a >= b\<close>: \<open>a - b\<close> is
  a FrameInterval \<open>d\<close> with \<open>d >= FrameInterval(0)\<close>, \<open>b + d\<close> does not raise, and the
  Frame it returns equals \<open>a\<close>.
\<close>

theorem Frame_sub_then_add:
  assumes "0 \<le> Frame_value a" and "0 \<le> Frame_value b"
    and "wrapper_ge (Frame_value a) (Frame_value b)"
  shows "\<exists>d c. Frame_sub a (PyFrame b) = Inr (PyFrameInterval d)
           \<and> wrapper_ge (FrameInterval_value d) 0
           \<and> Frame_add b d = Inr c
           \<and> wrapper_eq (Frame_value c) (Frame_value a)"
  using assms
  by (simp add: wrapper_ge_def wrapper_eq_def wrapper_gt_def Frame_add_def Frame_int_def)

theorem Frame_sub_then_add_witness:
  "wrapper_ge (Frame_value (Frame_obj 7)) (Frame_value (Frame_obj 4))
   \<and> Frame_sub (Frame_obj 7) (PyFrame (Frame_obj 4)) = Inr (PyFrameInterval (FrameInterval_obj 3))
   \<and> Frame_add (Frame_obj 4) (FrameInterval_obj 3) = Inr (Frame_obj 7)"
  using Frame_sub_then_add [of "Frame_obj 7" "Frame_obj 4"]
  by (simp add: wrapper_ge_def wrapper_eq_def wrapper_gt_def Frame_add_def Frame_int_def)

section \<open>Properties of strfdelta\<close>

lemmas strfdelta_eval =
  strfdelta_def strfdelta_fields_def id_start_def id_char_def emit_def Let_def

text \<open>
  C10, as claimed: \<open>%M\<close> and \<open>%m\<close> are \<open>td.seconds // 60\<close>, so that for every duration
  of one hour or more the minutes field exceeds 59. The second half fails: \<open>td.seconds\<close>
  is the seconds within the day, so a duration of exactly one day, which is more than
  one hour, has the minutes field \<open>00\<close>.
\<close>

theorem strfdelta_day_minutes:
  "(3600000000::int) \<le> 86400000000
   \<and> strfdelta 86400000000 ''%M'' = Inr ''00''
   \<and> Time_str (Time_obj 86400000000) = Inr ''0:00:00.000''"
  by code_simp

text \<open>
  C10, amended: \<open>%M\<close> and \<open>%m\<close> are \<open>td.seconds // 60\<close> and \<open>%h\<close> is
  \<open>td.seconds // 3600\<close>; whenever \<open>td.seconds\<close> is at least 3600 (every duration from
  one hour up to, not including, one day) the minutes field exceeds 59, being 60 times
  the hours field plus the minutes within the hour; one hour prints as
  \<open>1:60:00.000\<close>.
\<close>

theorem strfdelta_total_minutes:
  assumes "3600 \<le> td_seconds td"
  shows "strfdelta td ''%M'' = Inr (format_0d 2 (td_seconds td div 60))
       \<and> strfdelta td ''%m'' = Inr (format_wd 2 (td_seconds td div 60))
       \<and> strfdelta td ''%h'' = Inr (format_d (td_seconds td div 3600))
       \<and> 59 < td_seconds td div 60
       \<and> td_seconds td div 60 = 60 * (td_seconds td div 3600) + td_seconds td mod 3600 div 60
       \<and> Time_str (Time_obj 3600000000) = Inr ''1:60:00.000''"
proof -
  have m: "strfdelta td ''%M'' = Inr (format_0d 2 (td_seconds td div 60))"
    by (simp add: strfdelta_eval)
  have m': "strfdelta td ''%m'' = Inr (format_wd 2 (td_seconds td div 60))"
    by (simp add: strfdelta_eval)
  have h: "strfdelta td ''%h'' = Inr (format_d (td_seconds td div 3600))"
    by (simp add: strfdelta_eval)
  have big: "59 < td_seconds td div 60"
    using assms by linarith
  have split: "td_seconds td div 60 = 60 * (td_seconds td div 3600) + td_seconds td mod 3600 div 60"
  proof -
    have "td_seconds td = 60 * (60 * (td_seconds td div 3600)) + td_seconds td mod 3600"
      by simp
    then have "td_seconds td div 60
        = (60 * (60 * (td_seconds td div 3600)) + td_seconds td mod 3600) div 60"
      by simp
    also have "\<dots> = 60 * (td_seconds td div 3600) + td_seconds td mod 3600 div 60"
      by (simp only: div_mult_self4)
    finally show ?thesis .
  qed
  have hour: "Time_str (Time_obj 3600000000) = Inr ''1:60:00.000''"
    by code_simp
  from m m' h big split hour show ?thesis by blast
qed

theorem strfdelta_total_minutes_witness:
  "3600 \<le> td_seconds 5400000000
   \<and> strfdelta 5400000000 ''%M'' = Inr ''90''
   \<and> strfdelta 5400000000 ''%h'' = Inr ''1''"
proof -
  have h: "3600 \<le> td_seconds 5400000000" by (simp add: td_seconds_def)
  have f: "format_0d 2 (td_seconds 5400000000 div 60) = ''90''" by code_simp
  have g: "format_d (td_seconds 5400000000 div 3600) = ''1''" by code_simp
  from strfdelta_total_minutes [OF h] f g h show ?thesis by simp
qed

section \<open>Properties of the benchmark toolbar\<close>


lemma update_info_effect:
  "update_info now s = Inr s' \<Longrightarrow> \<exists>i. s' = s\<lparr>info_label := i\<rparr>"
  by (auto simp: update_info_def Let_def split: sum.splits if_splits)

lemma abort_unfold:
  "abort now s =
     (case (if running s then update_info now s else Inr s) of Inl e \<Rightarrow> Inl e
      | Inr s1 \<Rightarrow>
          Inr (if run_abort_button s1
               then s1\<lparr>running := False, update_info_timer := False, run_abort_button := False,
                       ui_editable := True\<rparr>
               else s1\<lparr>running := False, update_info_timer := False\<rparr>))"
  by (subst abort.simps, subst abort.simps)
     (auto simp: set_ui_editable_def split: sum.splits)

lemma same_run_fields:
  assumes "same_run s s'"
  shows "requests s' = requests s" and "in_flight s' = in_flight s"
    and "callbacks s' = callbacks s" and "history s' = history s"
    and "buffer s' = buffer s" and "buffer_maxlen s' = buffer_maxlen s"
    and "frames_left s' = frames_left s" and "sequenced_timer s' = sequenced_timer s"
    and "unsequenced s' = unsequenced s" and "start_frame s' = start_frame s"
    and "end_frame s' = end_frame s" and "total_frames s' = total_frames s"
    and "run_start_time s' = run_start_time s"
  by (subst assms [unfolded same_run_def], simp)+

lemma update_info_same: "update_info now s = Inr s' \<Longrightarrow> same_run s s'"
  by (auto simp: update_info_def same_run_def Let_def split: sum.splits if_splits)

lemma update_info_flags:
  "update_info now s = Inr s' \<Longrightarrow>
     running s' = running s \<and> run_abort_button s' = run_abort_button s
     \<and> update_info_timer s' = update_info_timer s \<and> ui_editable s' = ui_editable s"
  by (auto simp: update_info_def Let_def split: sum.splits if_splits)

lemma abort_same:
  assumes "abort now s = Inr s'"
  shows "same_run s s' \<and> \<not> running s' \<and> \<not> update_info_timer s' \<and> \<not> run_abort_button s'"
proof -
  obtain s1 where s1: "(if running s then update_info now s else Inr s) = Inr s1"
    using assms by (auto simp: abort_unfold split: sum.splits)
  have "\<exists>i. s1 = s\<lparr>info_label := i\<rparr>"
  proof (cases "running s")
    case True
    with s1 show ?thesis by (auto dest: update_info_effect)
  next
    case False
    with s1 have "s1 = s\<lparr>info_label := info_label s\<rparr>" by simp
    then show ?thesis ..
  qed
  then obtain i where i: "s1 = s\<lparr>info_label := i\<rparr>" ..
  show ?thesis
  proof (cases "run_abort_button s1")
    case True
    with assms s1 have "s' = s1\<lparr>running := False, update_info_timer := False,
                              run_abort_button := False, ui_editable := True\<rparr>"
      by (simp add: abort_unfold)
    with i show ?thesis by (simp add: same_run_def)
  next
    case False
    with assms s1 have "s' = s1\<lparr>running := False, update_info_timer := False\<rparr>"
      by (simp add: abort_unfold)
    with i False show ?thesis by (simp add: same_run_def)
  qed
qed

lemma abort_stopped:
  "\<not> running s \<Longrightarrow> \<not> run_abort_button s \<Longrightarrow> \<not> update_info_timer s \<Longrightarrow> abort now s = Inr s"
  by (simp add: abort_unfold)

lemma abort_twice:
  assumes "abort now s = Inr s'"
  shows "abort now' s' = Inr s'"
  using abort_same [OF assms] by (simp add: abort_stopped)



lemma same_widgets_fields:
  assumes "same_widgets s s'"
  shows "running s' = running s" and "run_abort_button s' = run_abort_button s"
    and "update_info_timer s' = update_info_timer s" and "ui_editable s' = ui_editable s"
    and "sequenced_timer s' = sequenced_timer s" and "unsequenced s' = unsequenced s"
    and "buffer_maxlen s' = buffer_maxlen s" and "start_frame s' = start_frame s"
    and "end_frame s' = end_frame s" and "total_frames s' = total_frames s"
    and "run_start_time s' = run_start_time s" and "info_label s' = info_label s"
    and "start_frame_control s' = start_frame_control s"
    and "end_frame_control s' = end_frame_control s"
    and "total_frames_control s' = total_frames_control s"
    and "prefetch_checkbox s' = prefetch_checkbox s"
    and "unsequenced_checkbox s' = unsequenced_checkbox s"
  by (subst assms [unfolded same_widgets_def], simp)+

lemma same_widgets_refl: "same_widgets s s"
  by (simp add: same_widgets_def)

lemma same_widgets_trans:
  assumes "same_widgets s s'" and "same_widgets s' s''"
  shows "same_widgets s s''"
proof -
  have "s'' = s'\<lparr>buffer := buffer s'', frames_left := frames_left s'', requests := requests s'',
             in_flight := in_flight s'', callbacks := callbacks s'', history := history s''\<rparr>"
    using assms(2) by (simp add: same_widgets_def)
  also have "s' = s\<lparr>buffer := buffer s', frames_left := frames_left s', requests := requests s',
             in_flight := in_flight s', callbacks := callbacks s', history := history s'\<rparr>"
    using assms(1) by (simp add: same_widgets_def)
  finally show ?thesis by (simp add: same_widgets_def)
qed

lemmas le_zero_eval = wrapper_le_def wrapper_gt_def

lemma next_frame_value:
  "next_frame s = Inr nf \<Longrightarrow>
     Frame_value nf = Frame_value (end_frame s) + 1 - FrameInterval_value (frames_left s)"
  by (auto simp: next_frame_def Frame_add_def Frame_int_def
           split: sum.splits if_splits py_value.splits)

lemma next_frame_ok:
  "0 \<le> Frame_value (end_frame s) \<Longrightarrow>
   FrameInterval_value (frames_left s) \<le> Frame_value (end_frame s) + 1 \<Longrightarrow>
   next_frame s
     = Inr (Frame_obj (Frame_value (end_frame s) + 1 - FrameInterval_value (frames_left s)))"
  by (simp add: next_frame_def Frame_add_def Frame_int_def)

lemma unsequenced_step:
  assumes "0 < FrameInterval_value (frames_left s)"
    and "request_next_frame_unsequenced fut now s = Inr s'"
  shows "same_widgets s s'"
    and "buffer s' = buffer s"
    and "frames_left s' = FrameInterval_obj (FrameInterval_value (frames_left s) - 1)"
    and "running s \<Longrightarrow> requests s'
           = requests s @ [Frame_value (end_frame s) + 1 - FrameInterval_value (frames_left s)]"
    and "\<not> running s \<Longrightarrow> requests s' = requests s"
    and "fut = None \<Longrightarrow> running s \<Longrightarrow>
           in_flight s' = in_flight s @ [Future (length (requests s))
             (Frame_value (end_frame s) + 1 - FrameInterval_value (frames_left s))]"
    and "length (in_flight s') \<le> length (in_flight s) + (if running s then 1 else 0)"
  using assms
  by (auto simp: request_next_frame_unsequenced_def le_zero_eval same_widgets_def
        get_frame_async_def add_done_callback_def result_def Let_def FrameInterval_isub_def
        length_remove1
      dest!: next_frame_value
      split: sum.splits if_splits option.splits)


lemma sequenced_step:
  assumes "0 < FrameInterval_value (frames_left s)"
    and "request_next_frame_sequenced now s = Inr s'"
  shows "same_widgets s s'"
    and "buffer s \<noteq> []"
    and "frames_left s' = FrameInterval_obj (FrameInterval_value (frames_left s) - 1)"
    and "requests s'
           = requests s @ [Frame_value (end_frame s) + 1 - FrameInterval_value (frames_left s)]"
    and "in_flight s' = remove1 (last (buffer s)) (in_flight s)
           @ [Future (length (requests s))
                (Frame_value (end_frame s) + 1 - FrameInterval_value (frames_left s))]"
    and "buffer s' =
           (case buffer_maxlen s of
              None \<Rightarrow> Future (length (requests s))
                (Frame_value (end_frame s) + 1 - FrameInterval_value (frames_left s))
                  # butlast (buffer s)
            | Some m \<Rightarrow> take m (Future (length (requests s))
                (Frame_value (end_frame s) + 1 - FrameInterval_value (frames_left s))
                  # butlast (buffer s)))"
    and "callbacks s' = callbacks s"
  using assms
  by (auto simp: request_next_frame_sequenced_def le_zero_eval same_widgets_def pop_def
        get_frame_async_def appendleft_def result_def Let_def FrameInterval_isub_def
        remove1_idem
      dest!: next_frame_value
      split: sum.splits if_splits option.splits prod.splits)

lemma run_body_sequenced:
  assumes "\<not> unsequenced s" and "run_body now offset s = Inr s'"
  shows "same_widgets s s'"
    and "frames_left s' = frames_left s"
    and "requests s' = requests s @ [Frame_value (start_frame s) + int offset]"
    and "in_flight s' = in_flight s
           @ [Future (length (requests s)) (Frame_value (start_frame s) + int offset)]"
    and "buffer s' =
           (case buffer_maxlen s of
              None \<Rightarrow> Future (length (requests s)) (Frame_value (start_frame s) + int offset)
                        # buffer s
            | Some m \<Rightarrow> take m (Future (length (requests s))
                                  (Frame_value (start_frame s) + int offset) # buffer s))"
    and "callbacks s' = callbacks s"
  using assms
  by (auto simp: run_body_def same_widgets_def get_frame_async_def appendleft_def Let_def
        Frame_add_def Frame_int_def
      split: sum.splits if_splits option.splits prod.splits)

lemma run_body_sequenced_ok:
  "\<not> unsequenced s \<Longrightarrow> 0 \<le> Frame_value (start_frame s) \<Longrightarrow> \<exists>s'. run_body now offset s = Inr s'"
  by (simp add: run_body_def get_frame_async_def Let_def Frame_add_def Frame_int_def)

lemma run_body_unsequenced_ok:
  assumes "unsequenced s" and "running s" and "0 < FrameInterval_value (frames_left s)"
    and "0 \<le> Frame_value (end_frame s)"
    and "FrameInterval_value (frames_left s) \<le> Frame_value (end_frame s) + 1"
  shows "\<exists>s'. run_body now offset s = Inr s'"
  using assms
  by (simp add: run_body_def request_next_frame_unsequenced_def le_zero_eval next_frame_ok
        get_frame_async_def Let_def)

lemma run_loop_ok:
  assumes "0 \<le> Frame_value (start_frame s)" and "0 \<le> Frame_value (end_frame s)"
    and "unsequenced s \<and> offs \<noteq> [] \<longrightarrow> running s
           \<and> FrameInterval_value (frames_left s) \<le> Frame_value (end_frame s) + 1
           \<and> int (length offs) \<le> FrameInterval_value (frames_left s)"
  shows "\<exists>s'. run_loop now offs s = Inr s'"
  using assms
proof (induction offs arbitrary: s)
  case Nil
  then show ?case by simp
next
  case (Cons offset offs)
  show ?case
  proof (cases "unsequenced s")
    case True
    with Cons.prems have pos: "0 < FrameInterval_value (frames_left s)" by simp
    from True Cons.prems pos obtain s1 where s1: "run_body now offset s = Inr s1"
      using run_body_unsequenced_ok [of s now offset] by auto
    with True have u: "request_next_frame_unsequenced None now s = Inr s1"
      by (simp add: run_body_def)
    note w = same_widgets_fields [OF unsequenced_step(1) [OF pos u]]
    have "\<exists>s'. run_loop now offs s1 = Inr s'"
    proof (rule Cons.IH)
      show "0 \<le> Frame_value (start_frame s1)" using w Cons.prems by simp
      show "0 \<le> Frame_value (end_frame s1)" using w Cons.prems by simp
      show "unsequenced s1 \<and> offs \<noteq> [] \<longrightarrow> running s1
           \<and> FrameInterval_value (frames_left s1) \<le> Frame_value (end_frame s1) + 1
           \<and> int (length offs) \<le> FrameInterval_value (frames_left s1)"
        using w Cons.prems True unsequenced_step(3) [OF pos u] by simp
    qed
    with s1 show ?thesis by simp
  next
    case False
    with Cons.prems obtain s1 where s1: "run_body now offset s = Inr s1"
      using run_body_sequenced_ok [of s now offset] by auto
    note w = same_widgets_fields [OF run_body_sequenced(1) [OF False s1]]
    have "\<exists>s'. run_loop now offs s1 = Inr s'"
    proof (rule Cons.IH)
      show "0 \<le> Frame_value (start_frame s1)" using w Cons.prems by simp
      show "0 \<le> Frame_value (end_frame s1)" using w Cons.prems by simp
      show "unsequenced s1 \<and> offs \<noteq> [] \<longrightarrow> running s1
           \<and> FrameInterval_value (frames_left s1) \<le> Frame_value (end_frame s1) + 1
           \<and> int (length offs) \<le> FrameInterval_value (frames_left s1)"
        using w False by simp
    qed
    with s1 show ?thesis by simp
  qed
qed

lemma run_loop_result:
  assumes "run_loop now offs s = Inr s'"
    and "unsequenced s \<and> offs \<noteq> [] \<longrightarrow>
           running s \<and> int (length offs) \<le> FrameInterval_value (frames_left s)"
  shows "same_widgets s s' \<and> length (requests s') = length (requests s) + length offs
         \<and> length (in_flight s') = length (in_flight s) + length offs
         \<and> FrameInterval_value (frames_left s')
             = (if unsequenced s then FrameInterval_value (frames_left s) - int (length offs)
                else FrameInterval_value (frames_left s))"
  using assms
proof (induction offs arbitrary: s)
  case Nil
  then show ?case by (simp add: same_widgets_refl)
next
  case (Cons offset offs)
  from Cons.prems(1) obtain s1 where s1: "run_body now offset s = Inr s1"
    and rest: "run_loop now offs s1 = Inr s'"
    by (auto split: sum.splits)
  show ?case
  proof (cases "unsequenced s")
    case True
    with Cons.prems have pos: "0 < FrameInterval_value (frames_left s)" and r: "running s"
      by simp_all
    from True s1 have u: "request_next_frame_unsequenced None now s = Inr s1"
      by (simp add: run_body_def)
    note st = unsequenced_step [OF pos u]
    note w = same_widgets_fields [OF st(1)]
    have "same_widgets s1 s' \<and> length (requests s') = length (requests s1) + length offs
         \<and> length (in_flight s') = length (in_flight s1) + length offs
         \<and> FrameInterval_value (frames_left s')
             = (if unsequenced s1 then FrameInterval_value (frames_left s1) - int (length offs)
                else FrameInterval_value (frames_left s1))"
      using rest w True r Cons.prems(2) st(3) by (intro Cons.IH) simp_all
    then show ?thesis
      using st(1) st(3) st(4) [OF r] st(6) [OF refl r] w True
      by (auto intro: same_widgets_trans)
  next
    case False
    note st = run_body_sequenced [OF False s1]
    note w = same_widgets_fields [OF st(1)]
    have "same_widgets s1 s' \<and> length (requests s') = length (requests s1) + length offs
         \<and> length (in_flight s') = length (in_flight s1) + length offs
         \<and> FrameInterval_value (frames_left s')
             = (if unsequenced s1 then FrameInterval_value (frames_left s1) - int (length offs)
                else FrameInterval_value (frames_left s1))"
      using rest w False by (intro Cons.IH) simp_all
    then show ?thesis
      using st w False by (auto intro: same_widgets_trans)
  qed
qed


lemma run_result:
  assumes "run now cpus s = Inr s'"
  shows "running s'" and "update_info_timer s'"
    and "run_abort_button s' = run_abort_button s" and "ui_editable s' = ui_editable s"
    and "unsequenced s' = unsequenced_checkbox s"
    and "start_frame s' = start_frame_control s" and "end_frame s' = end_frame_control s"
    and "total_frames s' = total_frames_control s" and "run_start_time s' = now"
    and "length (requests s') = length (requests s)
           + nat (min (FrameInterval_value (total_frames_control s))
                      (concurrent_requests_count s cpus))"
    and "length (in_flight s') = length (in_flight s)
           + nat (min (FrameInterval_value (total_frames_control s))
                      (concurrent_requests_count s cpus))"
    and "unsequenced_checkbox s \<Longrightarrow> sequenced_timer s' = sequenced_timer s"
    and "\<not> unsequenced_checkbox s \<Longrightarrow> sequenced_timer s'"
    and "\<not> unsequenced_checkbox s \<Longrightarrow>
           buffer_maxlen s' = Some (nat (concurrent_requests_count s cpus))"
proof -
  define c where "c = concurrent_requests_count s cpus"
  define tot where "tot = FrameInterval_value (total_frames_control s)"
  define s3 where "s3 =
      (if \<not> unsequenced_checkbox s
       then s\<lparr>start_frame := start_frame_control s, end_frame := end_frame_control s,
               total_frames := total_frames_control s, frames_left := total_frames_control s,
               unsequenced := unsequenced_checkbox s,
               buffer := [], buffer_maxlen := Some (nat c), sequenced_timer := True\<rparr>
       else s\<lparr>start_frame := start_frame_control s, end_frame := end_frame_control s,
               total_frames := total_frames_control s, frames_left := total_frames_control s,
               unsequenced := unsequenced_checkbox s\<rparr>)"
  define s4 where "s4 = s3\<lparr>running := True, run_start_time := now\<rparr>"
  from assms obtain s5 where
    loop: "run_loop now [0 ..< nat (min tot c)] s4 = Inr s5"
    and s': "s' = s5\<lparr>update_info_timer := True\<rparr>"
    by (auto simp: run_def Let_def c_def tot_def s3_def s4_def concurrent_requests_count_def
          split: sum.splits if_splits)
  have pre: "unsequenced s4 \<and> [0 ..< nat (min tot c)] \<noteq> [] \<longrightarrow>
           running s4 \<and> int (length [0 ..< nat (min tot c)]) \<le> FrameInterval_value (frames_left s4)"
    by (auto simp: s4_def s3_def tot_def)
  note r = run_loop_result [OF loop pre]
  note w = same_widgets_fields [OF conjunct1 [OF r]]
  show "running s'" using w s' by (simp add: s4_def)
  show "update_info_timer s'" using s' by simp
  show "run_abort_button s' = run_abort_button s" using w s' by (simp add: s4_def s3_def)
  show "ui_editable s' = ui_editable s" using w s' by (simp add: s4_def s3_def)
  show "unsequenced s' = unsequenced_checkbox s" using w s' by (simp add: s4_def s3_def)
  show "start_frame s' = start_frame_control s" using w s' by (simp add: s4_def s3_def)
  show "end_frame s' = end_frame_control s" using w s' by (simp add: s4_def s3_def)
  show "total_frames s' = total_frames_control s" using w s' by (simp add: s4_def s3_def)
  show "run_start_time s' = now" using w s' by (simp add: s4_def s3_def)
  show "length (requests s') = length (requests s)
           + nat (min (FrameInterval_value (total_frames_control s))
                      (concurrent_requests_count s cpus))"
    using r s' by (simp add: s4_def s3_def c_def tot_def)
  show "length (in_flight s') = length (in_flight s)
           + nat (min (FrameInterval_value (total_frames_control s))
                      (concurrent_requests_count s cpus))"
    using r s' by (simp add: s4_def s3_def c_def tot_def)
  show "unsequenced_checkbox s \<Longrightarrow> sequenced_timer s' = sequenced_timer s"
    using w s' by (simp add: s4_def s3_def)
  show "\<not> unsequenced_checkbox s \<Longrightarrow> sequenced_timer s'"
    using w s' by (simp add: s4_def s3_def)
  show "\<not> unsequenced_checkbox s \<Longrightarrow>
           buffer_maxlen s' = Some (nat (concurrent_requests_count s cpus))"
    using w s' by (simp add: s4_def s3_def c_def)
qed

lemma run_ok:
  assumes "0 \<le> Frame_value (start_frame_control s)"
    and "0 \<le> Frame_value (end_frame_control s)"
    and "FrameInterval_value (total_frames_control s) \<le> Frame_value (end_frame_control s) + 1"
    and "unsequenced_checkbox s \<or> 0 \<le> concurrent_requests_count s cpus"
  shows "\<exists>s'. run now cpus s = Inr s'"
proof -
  define c where "c = concurrent_requests_count s cpus"
  define tot where "tot = FrameInterval_value (total_frames_control s)"
  define s3 where "s3 =
      (if \<not> unsequenced_checkbox s
       then s\<lparr>start_frame := start_frame_control s, end_frame := end_frame_control s,
               total_frames := total_frames_control s, frames_left := total_frames_control s,
               unsequenced := unsequenced_checkbox s,
               buffer := [], buffer_maxlen := Some (nat c), sequenced_timer := True\<rparr>
       else s\<lparr>start_frame := start_frame_control s, end_frame := end_frame_control s,
               total_frames := total_frames_control s, frames_left := total_frames_control s,
               unsequenced := unsequenced_checkbox s\<rparr>)"
  define s4 where "s4 = s3\<lparr>running := True, run_start_time := now\<rparr>"
  have "\<exists>s5. run_loop now [0 ..< nat (min tot c)] s4 = Inr s5"
  proof (rule run_loop_ok)
    show "0 \<le> Frame_value (start_frame s4)" using assms by (simp add: s4_def s3_def)
    show "0 \<le> Frame_value (end_frame s4)" using assms by (simp add: s4_def s3_def)
    show "unsequenced s4 \<and> [0 ..< nat (min tot c)] \<noteq> [] \<longrightarrow> running s4
           \<and> FrameInterval_value (frames_left s4) \<le> Frame_value (end_frame s4) + 1
           \<and> int (length [0 ..< nat (min tot c)]) \<le> FrameInterval_value (frames_left s4)"
      using assms by (auto simp: s4_def s3_def tot_def)
  qed
  then obtain s5 where "run_loop now [0 ..< nat (min tot c)] s4 = Inr s5" ..
  with assms(4) show ?thesis
    by (auto simp: run_def Let_def c_def tot_def s3_def s4_def concurrent_requests_count_def)
qed

lemma run_negative_deque:
  "\<not> unsequenced_checkbox s \<Longrightarrow> concurrent_requests_count s cpus < 0 \<Longrightarrow>
     run now cpus s = Inl ValueError"
  by (simp add: run_def Let_def concurrent_requests_count_def)


lemma result_flags:
  "running (result fut s) = running s \<and> run_abort_button (result fut s) = run_abort_button s
   \<and> update_info_timer (result fut s) = update_info_timer s
   \<and> frames_left (result fut s) = frames_left s"
  by (simp add: result_def)

lemma fire_flags_inv:
  assumes "flags_inv s" and "fire e s = Inr s'"
  shows "flags_inv s'"
proof (cases e)
  case (Click now cpus)
  show ?thesis
  proof (cases "run_abort_button s")
    case True
    with Click assms(2) have "abort now (set_ui_editable True (s\<lparr>run_abort_button := False\<rparr>)) = Inr s'"
      by (simp add: on_run_abort_pressed_def)
    from abort_same [OF this] show ?thesis by (simp add: flags_inv_def)
  next
    case False
    with Click assms(2) have "run now cpus (set_ui_editable False (s\<lparr>run_abort_button := True\<rparr>)) = Inr s'"
      by (simp add: on_run_abort_pressed_def)
    from run_result(1-3) [OF this] show ?thesis
      by (simp add: flags_inv_def set_ui_editable_def)
  qed
next
  case (Sequenced_timeout now)
  show ?thesis
  proof (cases "0 < FrameInterval_value (frames_left s)")
    case True
    from Sequenced_timeout assms(2) have "request_next_frame_sequenced now s = Inr s'" by simp
    from same_widgets_fields [OF sequenced_step(1) [OF True this]] assms(1)
    show ?thesis by (auto simp: flags_inv_def)
  next
    case False
    with Sequenced_timeout assms(2) have "abort now s = Inr s'"
      by (simp add: request_next_frame_sequenced_def le_zero_eval)
    from abort_same [OF this] show ?thesis by (simp add: flags_inv_def)
  qed
next
  case (Update_info_timeout now)
  with assms show ?thesis
    by (auto simp: flags_inv_def dest: update_info_flags)
next
  case (Future_done fut now)
  show ?thesis
  proof (cases "fut \<in> set (callbacks s)")
    case in_cb: True
    with Future_done assms(2) have u: "request_next_frame_unsequenced (Some fut) now (result fut s) = Inr s'"
      by simp
    show ?thesis
    proof (cases "0 < FrameInterval_value (frames_left s)")
      case True
      then have "0 < FrameInterval_value (frames_left (result fut s))"
        by (simp add: result_flags)
      from same_widgets_fields [OF unsequenced_step(1) [OF this u]] assms(1)
      show ?thesis by (auto simp: flags_inv_def result_flags)
    next
      case False
      with u have "abort now (result fut s) = Inr s'"
        by (simp add: request_next_frame_unsequenced_def le_zero_eval result_flags)
      from abort_same [OF this] show ?thesis by (simp add: flags_inv_def)
    qed
  next
    case False
    with Future_done assms show ?thesis
      by (auto simp: flags_inv_def result_flags)
  qed
next
  case (Edit_controls st en tot pre unseq)
  with assms show ?thesis by (auto simp: flags_inv_def)
qed

lemma exec_flags_inv:
  "flags_inv s \<Longrightarrow> exec es s = Inr s' \<Longrightarrow> flags_inv s'"
proof (induction es arbitrary: s)
  case Nil
  then show ?case by simp
next
  case (Cons e es)
  from Cons.prems(2) obtain s1 where "fire e s = Inr s1" and "exec es s1 = Inr s'"
    by (auto split: sum.splits)
  with Cons.prems(1) Cons.IH fire_flags_inv show ?case by blast
qed

lemma init_flags_inv: "flags_inv init"
  by (simp add: flags_inv_def init_def)

text \<open>
  C9. \<open>abort\<close> is idempotent: when a call of \<open>abort\<close> returns, a second call right after
  it (at any clock reading) returns the same state. And it is a no-op when no run is in
  progress: in every state the toolbar reaches from its initial state, by any events, in
  which \<open>running\<close> is false, \<open>abort\<close> raises nothing and returns the state unchanged.
\<close>

theorem abort_idempotent_noop:
  "(abort now s = Inr s' \<longrightarrow> abort now' s' = Inr s')
   \<and> (exec es init = Inr t \<and> \<not> running t \<longrightarrow> abort now t = Inr t)"
proof (intro conjI impI)
  assume "abort now s = Inr s'"
  then show "abort now' s' = Inr s'" by (rule abort_twice)
next
  assume a: "exec es init = Inr t \<and> \<not> running t"
  then have "flags_inv t" using exec_flags_inv [OF init_flags_inv] by blast
  with a show "abort now t = Inr t"
    by (simp add: flags_inv_def abort_stopped)
qed

theorem abort_idempotent_noop_witness:
  "abort 6 (init\<lparr>run_abort_button := True, running := True, run_start_time := 5,
                  update_info_timer := True\<rparr>)
     = Inr (init\<lparr>run_abort_button := False, ui_editable := True,
                  info_label := Some \<lparr>info_frames_done = FrameInterval_obj 0,
                    info_total_frames = FrameInterval_obj 0, info_run_time = ''00:01.000'',
                    info_fps = 0\<rparr>,
                  running := False, run_start_time := 5, update_info_timer := False\<rparr>)
   \<and> abort 7 (init\<lparr>run_abort_button := False, ui_editable := True,
                  info_label := Some \<lparr>info_frames_done = FrameInterval_obj 0,
                    info_total_frames = FrameInterval_obj 0, info_run_time = ''00:01.000'',
                    info_fps = 0\<rparr>,
                  running := False, run_start_time := 5, update_info_timer := False\<rparr>)
     = Inr (init\<lparr>run_abort_button := False, ui_editable := True,
                  info_label := Some \<lparr>info_frames_done = FrameInterval_obj 0,
                    info_total_frames = FrameInterval_obj 0, info_run_time = ''00:01.000'',
                    info_fps = 0\<rparr>,
                  running := False, run_start_time := 5, update_info_timer := False\<rparr>)
   \<and> exec [] init = Inr init \<and> \<not> running init \<and> abort 6 init = Inr init"
proof -
  have first: "abort 6 (init\<lparr>run_abort_button := True, running := True, run_start_time := 5,
                  update_info_timer := True\<rparr>)
     = Inr (init\<lparr>run_abort_button := False, ui_editable := True,
                  info_label := Some \<lparr>info_frames_done = FrameInterval_obj 0,
                    info_total_frames = FrameInterval_obj 0, info_run_time = ''00:01.000'',
                    info_fps = 0\<rparr>,
                  running := False, run_start_time := 5, update_info_timer := False\<rparr>)"
    by code_simp
  have idle: "exec [] init = Inr init \<and> \<not> running init"
    by (simp add: init_def)
  from first idle abort_idempotent_noop [of 6 _ _ 7 "[]" init]
  show ?thesis by blast
qed

text \<open>
  C3, as claimed: a start with \<open>rangeStart > rangeEnd\<close> fails with InvalidConfig, leaves
  the state unchanged and issues no request. \<open>run\<close> has no such check: with the
  controls at start 5, end 2 (total 1, four usable CPUs, unsequenced) it returns
  normally, the toolbar is running with \<open>start_frame = 5\<close> and \<open>end_frame = 2\<close>, and frame 2
  has been requested.
\<close>

theorem run_start_after_end:
  "map_sum id (\<lambda>s. (running s, start_frame s, end_frame s, requests s))
     (run 0 4 (init\<lparr>start_frame_control := Frame_obj 5, end_frame_control := Frame_obj 2\<rparr>))
   = Inr (True, Frame_obj 5, Frame_obj 2, [2])"
  by code_simp

text \<open>
  C3, amended: \<open>run\<close> validates nothing and has no InvalidConfig. For non-negative
  frame controls with \<open>total <= end + 1\<close>, whatever the order of start and end and
  whatever the concurrency, it returns normally with the toolbar running, the range
  taken over from the controls, and \<open>max(0, min(total, concurrency))\<close> requests issued
  (none when the concurrency is below 1); the one exception is a sequenced run with a
  negative concurrency, where \<open>deque([], n)\<close> raises ValueError.
\<close>

theorem run_without_validation:
  assumes "0 \<le> Frame_value (start_frame_control s)"
    and "0 \<le> Frame_value (end_frame_control s)"
    and "FrameInterval_value (total_frames_control s) \<le> Frame_value (end_frame_control s) + 1"
  shows "if \<not> unsequenced_checkbox s \<and> concurrent_requests_count s cpus < 0
         then run now cpus s = Inl ValueError
         else \<exists>s'. run now cpus s = Inr s' \<and> running s'
                \<and> start_frame s' = start_frame_control s \<and> end_frame s' = end_frame_control s
                \<and> length (requests s') = length (requests s)
                     + nat (min (FrameInterval_value (total_frames_control s))
                                (concurrent_requests_count s cpus))"
proof (cases "\<not> unsequenced_checkbox s \<and> concurrent_requests_count s cpus < 0")
  case True
  then show ?thesis by (simp add: run_negative_deque)
next
  case False
  then have "unsequenced_checkbox s \<or> 0 \<le> concurrent_requests_count s cpus" by auto
  from run_ok [OF assms this] obtain s' where s': "run now cpus s = Inr s'" ..
  from run_result(1,6,7,10) [OF s'] s' False show ?thesis by auto
qed

theorem run_without_validation_witness:
  "0 \<le> Frame_value (start_frame_control
           (init\<lparr>start_frame_control := Frame_obj 5, end_frame_control := Frame_obj 2\<rparr>))
   \<and> Frame_value (end_frame_control
           (init\<lparr>start_frame_control := Frame_obj 5, end_frame_control := Frame_obj 2\<rparr>))
       < Frame_value (start_frame_control
           (init\<lparr>start_frame_control := Frame_obj 5, end_frame_control := Frame_obj 2\<rparr>))
   \<and> (\<exists>s'. run 0 0 (init\<lparr>start_frame_control := Frame_obj 5, end_frame_control := Frame_obj 2\<rparr>)
             = Inr s' \<and> running s' \<and> length (requests s') = 0)"
  using run_without_validation
    [of "init\<lparr>start_frame_control := Frame_obj 5, end_frame_control := Frame_obj 2\<rparr>" 0 0]
  by (auto simp: init_def concurrent_requests_count_def)

lemma update_info_zero:
  "py_round ((now - run_start_time s) * 1000000) = 0 \<Longrightarrow> update_info now s = Inl ZeroDivisionError"
  by (simp add: update_info_def TimeInterval_seconds_def timedelta_seconds_def Let_def td_days_def
        TimeInterval_float_def total_seconds_def)

text \<open>
  C5. The claim: refreshed with an elapsed time of 0, the display reports 0 fps and no
  division error is raised. \<open>update_info\<close> divides by \<open>float(run_time)\<close> without a
  test (the lemma above): polled at the clock reading of the start, before any frame has
  completed, it raises ZeroDivisionError; so it does on the fresh toolbar at time 0.
\<close>

theorem update_info_zero_elapsed:
  "exec [Click 5 4, Update_info_timeout 5] init = Inl ZeroDivisionError
   \<and> update_info 0 init = Inl ZeroDivisionError"
  by code_simp

text \<open>
  C1. The claim: in both ordering modes every frame of the range is requested exactly
  once. In sequenced mode \<open>run\<close> requests the first \<open>min(total, concurrency)\<close> frames
  without counting them in \<open>frames_left\<close>, and \<open>_request_next_frame_sequenced\<close> then
  starts again at \<open>end_frame + 1 - frames_left = start_frame\<close>: on the range 0 to 9
  with concurrency 3 the completed run has made 13 requests, frames 0, 1 and 2 twice.
\<close>

theorem sequenced_requests_twice:
  "map_sum id (\<lambda>s. (requests s, frames_left s, running s))
     (exec ([Edit_controls (Frame_obj 0) (Frame_obj 9) (FrameInterval_obj 10) True False,
             Click 0 3] @ replicate 10 (Sequenced_timeout 1) @ [Sequenced_timeout 2]) init)
   = Inr ([0, 1, 2, 0, 1, 2, 3, 4, 5, 6, 7, 8, 9], FrameInterval_obj 0, False)"
  by code_simp

text \<open>The unsequenced path counts every request in \<open>frames_left\<close>: on the same range
  with concurrency 4, the futures resolving out of order, the completed run has requested
  each frame once.\<close>

lemma unsequenced_requests_once:
  "feasible [Edit_controls (Frame_obj 0) (Frame_obj 9) (FrameInterval_obj 10) True True,
             Click 0 4,
             Future_done (Future 2 2) 1, Future_done (Future 0 0) 2, Future_done (Future 4 4) 3,
             Future_done (Future 1 1) 4, Future_done (Future 3 3) 5, Future_done (Future 5 5) 6,
             Future_done (Future 6 6) 7, Future_done (Future 9 9) 8, Future_done (Future 7 7) 9,
             Future_done (Future 8 8) 10] init
   \<and> map_sum id (\<lambda>s. (requests s, in_flight s, running s))
       (exec [Edit_controls (Frame_obj 0) (Frame_obj 9) (FrameInterval_obj 10) True True,
              Click 0 4,
              Future_done (Future 2 2) 1, Future_done (Future 0 0) 2, Future_done (Future 4 4) 3,
              Future_done (Future 1 1) 4, Future_done (Future 3 3) 5, Future_done (Future 5 5) 6,
              Future_done (Future 6 6) 7, Future_done (Future 9 9) 8, Future_done (Future 7 7) 9,
              Future_done (Future 8 8) 10] init)
     = Inr ([0, 1, 2, 3, 4, 5, 6, 7, 8, 9], [], False)"
  by code_simp

text \<open>
  C2. The claim: after \<open>abort()\<close> no new request is issued, in either mode. In sequenced
  mode nothing stops \<open>sequenced_timer\<close> and \<open>_request_next_frame_sequenced\<close> does not
  test \<open>running\<close>: on a 100-frame range with concurrency 5, after the start and an
  immediate abort (five requests, \<open>running\<close> false) the timer is still enabled and its
  next timeout issues a sixth request.
\<close>

theorem sequenced_requests_after_abort:
  "feasible [Edit_controls (Frame_obj 0) (Frame_obj 99) (FrameInterval_obj 100) True False,
             Click 0 5, Click 1 5, Sequenced_timeout 2] init
   \<and> map_sum id (\<lambda>s. (running s, requests s))
       (exec [Edit_controls (Frame_obj 0) (Frame_obj 99) (FrameInterval_obj 100) True False,
              Click 0 5, Click 1 5] init)
     = Inr (False, [0, 1, 2, 3, 4])
   \<and> map_sum id (\<lambda>s. (running s, requests s))
       (exec [Edit_controls (Frame_obj 0) (Frame_obj 99) (FrameInterval_obj 100) True False,
              Click 0 5, Click 1 5, Sequenced_timeout 2] init)
     = Inr (False, [0, 1, 2, 3, 4, 0])"
  by code_simp

text \<open>In unsequenced mode the callback does test \<open>running\<close>: once it is false, a
  resolving future requests nothing.\<close>

lemma unsequenced_after_abort:
  assumes "\<not> running s" and "request_next_frame_unsequenced fut now s = Inr s'"
  shows "requests s' = requests s"
proof (cases "0 < FrameInterval_value (frames_left s)")
  case True
  from unsequenced_step(5) [OF True assms(2) assms(1)] show ?thesis .
next
  case False
  with assms(2) have "abort now s = Inr s'"
    by (simp add: request_next_frame_unsequenced_def le_zero_eval)
  from abort_same [OF this] show ?thesis by (simp add: same_run_fields)
qed

section \<open>The requests in flight during a run\<close>

lemma same_run_inv:
  assumes "same_run s s'" and "run_inv k s"
  shows "run_inv k s'"
  using assms(2) same_run_fields [OF assms(1)]
  by (auto simp: run_inv_def unsequenced_inv_def sequenced_inv_def split: if_splits)

lemma result_fields:
  "unsequenced (result fut s) = unsequenced s"
  "sequenced_timer (result fut s) = sequenced_timer s"
  "buffer (result fut s) = buffer s"
  "buffer_maxlen (result fut s) = buffer_maxlen s"
  "callbacks (result fut s) = callbacks s"
  "requests (result fut s) = requests s"
  "in_flight (result fut s) = remove1 fut (in_flight s)"
  by (simp_all add: result_def remove1_idem)

lemma sequenced_tick_inv:
  assumes inv: "sequenced_inv k s" and pos: "0 < FrameInterval_value (frames_left s)"
    and step: "request_next_frame_sequenced now s = Inr s'"
  shows "sequenced_inv k s'"
proof -
  note st = sequenced_step [OF pos step]
  note w = same_widgets_fields [OF st(1)]
  define new where "new = Future (length (requests s))
      (Frame_value (end_frame s) + 1 - FrameInterval_value (frames_left s))"
  from inv have ml: "buffer_maxlen s = Some k" and len: "length (buffer s) \<le> k"
    and db: "distinct (buffer s)" and di: "distinct (in_flight s)"
    and sub: "set (in_flight s) \<subseteq> set (buffer s)"
    and disj: "set (buffer s) \<inter> set (callbacks s) = {}"
    and ids: "\<forall>f\<in>set (buffer s). future_id f < length (requests s)"
    and cids: "\<forall>f\<in>set (callbacks s). future_id f < length (requests s)"
    by (simp_all add: sequenced_inv_def list_all_iff)
  from st(2) len have short: "length (new # butlast (buffer s)) \<le> k" by (cases "buffer s") auto
  have buf: "buffer s' = new # butlast (buffer s)"
    using st(6) ml short by (simp add: new_def)
  have inf: "in_flight s' = remove1 (last (buffer s)) (in_flight s) @ [new]"
    using st(5) by (simp add: new_def)
  have new_buf: "new \<notin> set (buffer s)" using ids by (auto simp: new_def)
  have new_cb: "new \<notin> set (callbacks s)" using cids by (auto simp: new_def)
  have split: "buffer s = butlast (buffer s) @ [last (buffer s)]" using st(2) by simp
  have last_notin: "last (buffer s) \<notin> set (butlast (buffer s))"
    using db split by (metis distinct_append disjoint_iff list.set_intros(1) set_append Un_iff)
  have set_bl: "set (butlast (buffer s)) \<subseteq> set (buffer s)" by (auto dest: in_set_butlastD)
  have in_sub: "set (remove1 (last (buffer s)) (in_flight s)) \<subseteq> set (butlast (buffer s))"
  proof
    fix f assume "f \<in> set (remove1 (last (buffer s)) (in_flight s))"
    with di have "f \<in> set (in_flight s)" and ne: "f \<noteq> last (buffer s)" by auto
    with sub have "f \<in> set (buffer s)" by auto
    then have "f \<in> set (butlast (buffer s) @ [last (buffer s)])" using split by simp
    with ne show "f \<in> set (butlast (buffer s))" by auto
  qed
  show ?thesis
    unfolding sequenced_inv_def list_all_iff
  proof (intro conjI)
    show "buffer_maxlen s' = Some k" using w ml by simp
    show "length (buffer s') \<le> k" using buf short by simp
    show "distinct (buffer s')" using buf db new_buf set_bl by (auto simp: distinct_butlast)
    show "distinct (in_flight s')" using inf di new_buf sub in_sub set_bl by auto
    show "set (in_flight s') \<subseteq> set (buffer s')" using inf buf in_sub by auto
    show "set (buffer s') \<inter> set (callbacks s') = {}"
      using buf st(7) disj new_cb set_bl by auto
    show "\<forall>f\<in>set (buffer s'). future_id f < length (requests s')"
      using buf st(4) ids set_bl by (auto simp: new_def less_SucI)
    show "\<forall>f\<in>set (callbacks s'). future_id f < length (requests s')"
      using st(4) st(7) cids by (auto simp: less_SucI)
  qed
qed

lemma sequenced_in_flight_bound:
  assumes "sequenced_inv k s"
  shows "length (in_flight s) \<le> k"
proof -
  from assms have di: "distinct (in_flight s)" and db: "distinct (buffer s)"
    and sub: "set (in_flight s) \<subseteq> set (buffer s)" and len: "length (buffer s) \<le> k"
    by (simp_all add: sequenced_inv_def)
  have "length (in_flight s) = card (set (in_flight s))"
    using di by (simp add: distinct_card)
  also have "\<dots> \<le> card (set (buffer s))"
    using sub by (intro card_mono) simp_all
  also have "\<dots> = length (buffer s)"
    using db by (simp add: distinct_card)
  finally show ?thesis using len by simp
qed

lemma run_inv_bound: "run_inv k s \<Longrightarrow> length (in_flight s) \<le> k"
  by (auto simp: run_inv_def unsequenced_inv_def dest: sequenced_in_flight_bound split: if_splits)

lemma fire_run_inv:
  assumes inv: "run_inv k s" and en: "enabled e s" and ns: "\<not> starts_run e s"
    and f: "fire e s = Inr s'"
  shows "run_inv k s'"
proof (cases e)
  case (Click now cpus)
  with ns have b: "run_abort_button s" by simp
  with Click f have a: "abort now (set_ui_editable True (s\<lparr>run_abort_button := False\<rparr>)) = Inr s'"
    by (simp add: on_run_abort_pressed_def)
  have "run_inv k (set_ui_editable True (s\<lparr>run_abort_button := False\<rparr>))"
    using inv
    by (auto simp: run_inv_def unsequenced_inv_def sequenced_inv_def set_ui_editable_def
          split: if_splits)
  with abort_same [OF a] show ?thesis by (blast intro: same_run_inv)
next
  case (Sequenced_timeout now)
  with en have timer: "sequenced_timer s" by simp
  with inv have seq: "\<not> unsequenced s" "sequenced_inv k s"
    by (auto simp: run_inv_def unsequenced_inv_def split: if_splits)
  from Sequenced_timeout f have step: "request_next_frame_sequenced now s = Inr s'" by simp
  show ?thesis
  proof (cases "0 < FrameInterval_value (frames_left s)")
    case True
    from sequenced_tick_inv [OF seq(2) True step]
      same_widgets_fields(6) [OF sequenced_step(1) [OF True step]] seq(1)
    show ?thesis by (simp add: run_inv_def)
  next
    case False
    with step have "abort now s = Inr s'"
      by (simp add: request_next_frame_sequenced_def le_zero_eval)
    with abort_same inv show ?thesis by (blast intro: same_run_inv)
  qed
next
  case (Update_info_timeout now)
  with f have "update_info now s = Inr s'" by simp
  with update_info_same inv show ?thesis by (blast intro: same_run_inv)
next
  case (Future_done fut now)
  with en have mem: "fut \<in> set (in_flight s)" by simp
  show ?thesis
  proof (cases "unsequenced s")
    case True
    with inv have u: "\<not> sequenced_timer s" "length (in_flight s) \<le> k"
      by (simp_all add: run_inv_def unsequenced_inv_def)
    from mem have shorter: "length (in_flight (result fut s)) < length (in_flight s)"
      by (simp add: result_fields length_remove1) (cases "in_flight s", auto)
    have r_inv: "run_inv k (result fut s)"
      using True u shorter by (simp add: run_inv_def unsequenced_inv_def result_fields)
    show ?thesis
    proof (cases "fut \<in> set (callbacks s)")
      case cb: True
      with Future_done f have cbk:
        "request_next_frame_unsequenced (Some fut) now (result fut s) = Inr s'" by simp
      show ?thesis
      proof (cases "0 < FrameInterval_value (frames_left (result fut s))")
        case pos: True
        note st = unsequenced_step [OF pos cbk]
        note w = same_widgets_fields [OF st(1)]
        from st(7) shorter u(2) have "length (in_flight s') \<le> k" by (simp split: if_splits)
        with w True u(1) show ?thesis
          by (simp add: run_inv_def unsequenced_inv_def result_fields)
      next
        case False
        with cbk have "abort now (result fut s) = Inr s'"
          by (simp add: request_next_frame_unsequenced_def le_zero_eval)
        with abort_same r_inv show ?thesis by (blast intro: same_run_inv)
      qed
    next
      case False
      with Future_done f r_inv show ?thesis by simp
    qed
  next
    case False
    with inv have seq: "sequenced_inv k s" by (simp add: run_inv_def)
    then have "set (in_flight s) \<subseteq> set (buffer s)" "set (buffer s) \<inter> set (callbacks s) = {}"
      by (simp_all add: sequenced_inv_def)
    with mem have "fut \<notin> set (callbacks s)" by auto
    with Future_done f have s': "s' = result fut s" by simp
    have "sequenced_inv k (result fut s)"
      using seq by (auto simp: sequenced_inv_def result_fields dest: notin_set_remove1)
    with False s' show ?thesis by (simp add: run_inv_def result_fields)
  qed
next
  case (Edit_controls st en tot pre unseq)
  with f inv show ?thesis
    by (auto simp: run_inv_def unsequenced_inv_def sequenced_inv_def)
qed

lemma exec_run_inv:
  "run_inv k s \<Longrightarrow> during_run es s \<Longrightarrow> exec es s = Inr s' \<Longrightarrow> run_inv k s'"
proof (induction es arbitrary: s)
  case Nil
  then show ?case by simp
next
  case (Cons e es)
  from Cons.prems(3) obtain s1 where s1: "fire e s = Inr s1" and rest: "exec es s1 = Inr s'"
    by (auto split: sum.splits)
  from Cons.prems(2) s1 have "enabled e s" "\<not> starts_run e s" "during_run es s1" by simp_all
  with Cons.prems(1) s1 rest Cons.IH fire_run_inv show ?case by blast
qed

lemma run_body_sequenced_inv:
  assumes seq: "\<not> unsequenced s" and inv: "sequenced_inv k s"
    and room: "length (buffer s) < k" and body: "run_body now offset s = Inr s'"
  shows "sequenced_inv k s' \<and> \<not> unsequenced s' \<and> length (buffer s') = Suc (length (buffer s))"
proof -
  note st = run_body_sequenced [OF seq body]
  note w = same_widgets_fields [OF st(1)]
  define new where "new = Future (length (requests s)) (Frame_value (start_frame s) + int offset)"
  from inv have ml: "buffer_maxlen s = Some k"
    and db: "distinct (buffer s)" and di: "distinct (in_flight s)"
    and sub: "set (in_flight s) \<subseteq> set (buffer s)"
    and disj: "set (buffer s) \<inter> set (callbacks s) = {}"
    and ids: "\<forall>f\<in>set (buffer s). future_id f < length (requests s)"
    and cids: "\<forall>f\<in>set (callbacks s). future_id f < length (requests s)"
    by (simp_all add: sequenced_inv_def list_all_iff)
  have buf: "buffer s' = new # buffer s"
    using st(5) ml room by (simp add: new_def)
  have inf: "in_flight s' = in_flight s @ [new]"
    using st(4) by (simp add: new_def)
  have new_buf: "new \<notin> set (buffer s)" using ids by (auto simp: new_def)
  have new_cb: "new \<notin> set (callbacks s)" using cids by (auto simp: new_def)
  have "sequenced_inv k s'"
    unfolding sequenced_inv_def list_all_iff
  proof (intro conjI)
    show "buffer_maxlen s' = Some k" using w ml by simp
    show "length (buffer s') \<le> k" using buf room by simp
    show "distinct (buffer s')" using buf db new_buf by simp
    show "distinct (in_flight s')" using inf di new_buf sub by auto
    show "set (in_flight s') \<subseteq> set (buffer s')" using inf buf sub by auto
    show "set (buffer s') \<inter> set (callbacks s') = {}"
      using buf st(6) disj new_cb by auto
    show "\<forall>f\<in>set (buffer s'). future_id f < length (requests s')"
      using buf st(3) ids by (auto simp: new_def less_SucI)
    show "\<forall>f\<in>set (callbacks s'). future_id f < length (requests s')"
      using st(3) st(6) cids by (auto simp: less_SucI)
  qed
  with w seq buf show ?thesis by simp
qed

lemma run_loop_sequenced_inv:
  assumes "\<not> unsequenced s" and "sequenced_inv k s"
    and "length (buffer s) + length offs \<le> k" and "run_loop now offs s = Inr s'"
  shows "sequenced_inv k s'"
  using assms
proof (induction offs arbitrary: s)
  case Nil
  then show ?case by simp
next
  case (Cons offset offs)
  from Cons.prems(4) obtain s1 where s1: "run_body now offset s = Inr s1"
    and rest: "run_loop now offs s1 = Inr s'"
    by (auto split: sum.splits)
  from Cons.prems(3) have room: "length (buffer s) < k" by simp
  from run_body_sequenced_inv [OF Cons.prems(1) Cons.prems(2) room s1]
  have "\<not> unsequenced s1" "sequenced_inv k s1" "length (buffer s1) + length offs \<le> k"
    using Cons.prems(3) by simp_all
  with rest show ?case by (rule Cons.IH [rotated 3])
qed

lemma run_establishes_inv:
  assumes q: "quiescent s" and r: "run now cpus s = Inr s'"
  shows "run_inv (nat (concurrent_requests_count s cpus)) s'"
proof (cases "unsequenced_checkbox s")
  case True
  from run_result(5,11,12) [OF r] True q show ?thesis
    by (simp add: run_inv_def unsequenced_inv_def quiescent_def)
next
  case False
  define c where "c = concurrent_requests_count s cpus"
  define tot where "tot = FrameInterval_value (total_frames_control s)"
  define s4 where "s4 =
      s\<lparr>start_frame := start_frame_control s, end_frame := end_frame_control s,
        total_frames := total_frames_control s, frames_left := total_frames_control s,
        unsequenced := unsequenced_checkbox s,
        buffer := [], buffer_maxlen := Some (nat c), sequenced_timer := True,
        running := True, run_start_time := now\<rparr>"
  from r False obtain s5 where
    loop: "run_loop now [0 ..< nat (min tot c)] s4 = Inr s5"
    and s': "s' = s5\<lparr>update_info_timer := True\<rparr>"
    by (auto simp: run_def Let_def c_def tot_def s4_def concurrent_requests_count_def
          split: sum.splits if_splits)
  have seq4: "\<not> unsequenced s4" using False by (simp add: s4_def)
  have inv4: "sequenced_inv (nat c) s4"
    using q by (simp add: sequenced_inv_def s4_def quiescent_def)
  have room: "length (buffer s4) + length [0 ..< nat (min tot c)] \<le> nat c"
    by (simp add: s4_def)
  from run_loop_sequenced_inv [OF seq4 inv4 room loop]
  have "sequenced_inv (nat c) s5" .
  moreover have "\<not> unsequenced s5"
    using same_widgets_fields(6) [OF conjunct1 [OF run_loop_result [OF loop]]] seq4 by simp
  ultimately show ?thesis using s'
    by (simp add: run_inv_def sequenced_inv_def c_def)
qed

text \<open>
  A run started while requests of an aborted run are outstanding. \<open>abort\<close> cancels
  nothing, and the callbacks of the futures still in flight do not tell one run from the
  next: unsequenced with concurrency 2, after Run, abort and Run again, the two futures of
  the first run resolve, each callback requests a frame for the second run, and four
  requests of the second run are in flight.
\<close>

theorem restart_in_flight:
  "feasible [Edit_controls (Frame_obj 0) (Frame_obj 9) (FrameInterval_obj 10) True True,
             Click 0 2, Click 1 2, Click 2 2,
             Future_done (Future 0 0) 3, Future_done (Future 1 1) 3] init
   \<and> map_sum id (\<lambda>s. (running s, concurrent_requests_count s 2, in_flight s))
       (exec [Edit_controls (Frame_obj 0) (Frame_obj 9) (FrameInterval_obj 10) True True,
              Click 0 2, Click 1 2, Click 2 2,
              Future_done (Future 0 0) 3, Future_done (Future 1 1) 3] init)
     = Inr (True, 2, [Future 2 0, Future 3 1, Future 4 2, Future 5 3])"
  by code_simp

lemma resolved_after_append:
  "resolved_after R (h @ h') = resolved_after (resolved_after R h) h'"
  by (induction R h rule: resolved_after.induct) simp_all

lemma pending_after_append:
  "pending_after P (h @ h') = pending_after (pending_after P h) h'"
  by (induction P h rule: pending_after.induct) simp_all

lemma never_early_append:
  "never_early a c R P (h @ h')
     = (never_early a c R P h \<and> never_early a c (resolved_after R h) (pending_after P h) h')"
  by (induction a c R P h rule: never_early.induct) auto

lemma resolved_after_mono: "set R \<subseteq> set (resolved_after R h)"
  by (induction R h rule: resolved_after.induct) auto

lemma sequenced_step_history:
  assumes "0 < FrameInterval_value (frames_left s)"
    and "request_next_frame_sequenced now s = Inr s'"
  shows "history s' =
           (if last (buffer s) \<in> set (in_flight s) then history s @ [Resolved (last (buffer s))]
            else history s)
           @ [Requested (Future (length (requests s))
                (Frame_value (end_frame s) + 1 - FrameInterval_value (frames_left s)))]"
  using assms
  by (auto simp: request_next_frame_sequenced_def le_zero_eval pop_def
        get_frame_async_def appendleft_def result_def Let_def FrameInterval_isub_def
      dest!: next_frame_value
      split: sum.splits if_splits option.splits prod.splits)

lemma run_body_sequenced_history:
  assumes "\<not> unsequenced s" and "run_body now offset s = Inr s'"
  shows "history s' = history s
           @ [Requested (Future (length (requests s)) (Frame_value (start_frame s) + int offset))]"
  using assms
  by (auto simp: run_body_def get_frame_async_def appendleft_def Let_def
        Frame_add_def Frame_int_def
      split: sum.splits if_splits option.splits prod.splits)

lemma issue_frame_fresh:
  assumes "c \<le> j" and "j < n" and "n < j + c"
  shows "issue_frame a c n \<noteq> a + int j - int c"
  using assms by (auto simp: issue_frame_def)

lemma rev_window_shift:
  assumes "0 < c"
  shows "F (j + c) # butlast (rev (map F [j ..< j + c])) = rev (map F [Suc j ..< Suc j + c])"
    and "last (rev (map F [j ..< j + c])) = F j"
    and "set (butlast (rev (map F [j ..< j + c]))) = F ` {Suc j ..< j + c}"
proof -
  from assms have up: "[j ..< j + c] = j # [Suc j ..< j + c]"
    by (simp add: upt_conv_Cons)
  have bl: "butlast (rev (map F [j ..< j + c])) = rev (map F [Suc j ..< j + c])"
    by (subst up) (simp add: butlast_rev)
  show "F (j + c) # butlast (rev (map F [j ..< j + c])) = rev (map F [Suc j ..< Suc j + c])"
    by (subst bl) (use assms in simp)
  show "last (rev (map F [j ..< j + c])) = F j" by (subst up) simp
  show "set (butlast (rev (map F [j ..< j + c]))) = F ` {Suc j ..< j + c}"
    by (subst bl) simp
qed

lemma order_inv_cong:
  assumes "frames_left s' = frames_left s" and "total_frames s' = total_frames s"
    and "end_frame s' = end_frame s" and "buffer s' = buffer s"
    and "requests s' = requests s" and "history s' = history s"
    and "in_flight s' = in_flight s"
  shows "order_inv base a c h0 s' = order_inv base a c h0 s"
  unfolding order_inv_def by (simp only: assms)

lemma order_inv_same_run:
  assumes "same_run s s'" and "order_inv base a c h0 s"
  shows "order_inv base a c h0 s'"
  using assms(2) same_run_fields [OF assms(1)]
  by (simp add: order_inv_cong [of s' s])

lemma order_inv_resolve:
  assumes inv: "order_inv base a c h0 s" and mem: "fut \<in> set (in_flight s)"
  shows "order_inv base a c h0 (result fut s)"
proof -
  from inv obtain h where h: "history s = h0 @ h" and ok: "never_early a (int c) [] [] h"
    and pend: "mset (pending_after [] h) = image_mset future_frame (mset (in_flight s))"
    and res: "\<forall>f\<in>set (buffer s). f \<notin> set (in_flight s)
                    \<longrightarrow> future_frame f \<in> set (resolved_after [] h)"
    by (auto simp: order_inv_def)
  let ?h = "h @ [Resolved fut]"
  have r: "result fut s = s\<lparr>in_flight := remove1 fut (in_flight s),
                              history := history s @ [Resolved fut]\<rparr>"
    using mem by (simp add: result_def)
  have h': "history (result fut s) = h0 @ ?h" using h r by simp
  have ok': "never_early a (int c) [] [] ?h" using ok by (simp add: never_early_append)
  have "mset (pending_after [] ?h) = mset (pending_after [] h) - {#future_frame fut#}"
    by (simp add: pending_after_append)
  also have "\<dots> = image_mset future_frame (mset (in_flight s) - {#fut#})"
    using mem pend by (simp add: image_mset_Diff)
  finally have pend': "mset (pending_after [] ?h)
      = image_mset future_frame (mset (in_flight (result fut s)))"
    using r by simp
  have res': "\<forall>f\<in>set (buffer (result fut s)). f \<notin> set (in_flight (result fut s))
                    \<longrightarrow> future_frame f \<in> set (resolved_after [] ?h)"
  proof (intro ballI impI)
    fix f assume f: "f \<in> set (buffer (result fut s))" and nf: "f \<notin> set (in_flight (result fut s))"
    show "future_frame f \<in> set (resolved_after [] ?h)"
    proof (cases "f = fut")
      case True
      then show ?thesis by (simp add: resolved_after_append)
    next
      case False
      with nf r have "f \<notin> set (in_flight s)" by simp
      with f r res have "future_frame f \<in> set (resolved_after [] h)" by simp
      then show ?thesis by (simp add: resolved_after_append)
    qed
  qed
  from h' ok' pend' res' have
    "\<exists>h. history (result fut s) = h0 @ h \<and> never_early a (int c) [] [] h
        \<and> mset (pending_after [] h) = image_mset future_frame (mset (in_flight (result fut s)))
        \<and> (\<forall>f\<in>set (buffer (result fut s)). f \<notin> set (in_flight (result fut s))
               \<longrightarrow> future_frame f \<in> set (resolved_after [] h))"
    by blast
  moreover from inv r have "0 \<le> FrameInterval_value (frames_left (result fut s))
      \<and> FrameInterval_value (frames_left (result fut s))
          \<le> FrameInterval_value (total_frames (result fut s))
      \<and> Frame_value (end_frame (result fut s)) + 1
          - FrameInterval_value (total_frames (result fut s)) = a
      \<and> 0 < c \<and> int c \<le> FrameInterval_value (total_frames (result fut s))
      \<and> buffer (result fut s) = rev (map (issued base a c)
            [nat (FrameInterval_value (total_frames (result fut s))
                  - FrameInterval_value (frames_left (result fut s))) ..<
             nat (FrameInterval_value (total_frames (result fut s))
                  - FrameInterval_value (frames_left (result fut s))) + c])
      \<and> length (requests (result fut s))
          = base + c + nat (FrameInterval_value (total_frames (result fut s))
                            - FrameInterval_value (frames_left (result fut s)))"
    by (simp add: order_inv_def)
  ultimately show ?thesis unfolding order_inv_def by blast
qed

lemma order_inv_tick:
  assumes sinv: "sequenced_inv c s" and inv: "order_inv base a c h0 s"
    and pos: "0 < FrameInterval_value (frames_left s)"
    and step: "request_next_frame_sequenced now s = Inr s'"
  shows "order_inv base a c h0 s'"
proof -
  note st = sequenced_step [OF pos step]
  note w = same_widgets_fields [OF st(1)]
  define tot where "tot = FrameInterval_value (total_frames s)"
  define fl where "fl = FrameInterval_value (frames_left s)"
  define j where "j = nat (tot - fl)"
  define F where "F = issued base a c"
  define new where "new = Future (length (requests s)) (Frame_value (end_frame s) + 1 - fl)"
  from inv have fl0: "0 \<le> fl" and fl_tot: "fl \<le> tot"
    and a: "Frame_value (end_frame s) + 1 - tot = a"
    and c0: "0 < c" and c_tot: "int c \<le> tot"
    and buf: "buffer s = rev (map F [j ..< j + c])"
    and reqs: "length (requests s) = base + c + j"
    by (simp_all add: order_inv_def tot_def fl_def j_def F_def)
  from inv obtain h where h: "history s = h0 @ h" and ok: "never_early a (int c) [] [] h"
    and pend: "mset (pending_after [] h) = image_mset future_frame (mset (in_flight s))"
    and res: "\<forall>f\<in>set (buffer s). f \<notin> set (in_flight s)
                    \<longrightarrow> future_frame f \<in> set (resolved_after [] h)"
    by (auto simp: order_inv_def)
  from sinv have ml: "buffer_maxlen s = Some c" and db: "distinct (buffer s)"
    and di: "distinct (in_flight s)" and sub: "set (in_flight s) \<subseteq> set (buffer s)"
    by (simp_all add: sequenced_inv_def)
  have j_int: "int j = tot - fl" using fl_tot by (simp add: j_def)
  have new_frame: "Frame_value (end_frame s) + 1 - fl = a + int j"
    using a j_int by simp
  have new_F: "new = F (j + c)"
    by (simp add: new_def F_def issued_def issue_frame_def reqs new_frame)
  have last_F: "last (buffer s) = F j"
    unfolding buf using c0 by (rule rev_window_shift(2))
  have bl_set: "set (butlast (buffer s)) = F ` {Suc j ..< j + c}"
    unfolding buf using c0 by (rule rev_window_shift(3))
  have len_buf: "length (buffer s) = c" by (simp add: buf)
  have fl': "FrameInterval_value (frames_left s') = fl - 1"
    using st(3) by (simp add: fl_def)
  have j': "nat (FrameInterval_value (total_frames s') - FrameInterval_value (frames_left s')) = Suc j"
    using w fl' fl_tot by (simp add: tot_def j_def)
  have buf': "buffer s' = rev (map F [Suc j ..< Suc j + c])"
  proof -
    have "buffer s' = take c (new # butlast (buffer s))"
      using st(6) ml by (simp add: new_def fl_def)
    also have "\<dots> = new # butlast (buffer s)" using len_buf c0 by simp
    also have "\<dots> = rev (map F [Suc j ..< Suc j + c])"
      unfolding new_F buf using c0 by (rule rev_window_shift(1))
    finally show ?thesis .
  qed
  have inf': "in_flight s' = remove1 (F j) (in_flight s) @ [new]"
    using st(5) last_F by (simp add: new_def fl_def)
  have reqs': "length (requests s') = base + c + Suc j"
    using st(4) reqs by simp
  \<comment> \<open>the history: the oldest future resolves, then the new request\<close>
  define hm where "hm = (if F j \<in> set (in_flight s) then h @ [Resolved (F j)] else h)"
  have hist': "history s' = h0 @ hm @ [Requested new]"
    using sequenced_step_history [OF pos step] h last_F
    by (simp add: hm_def new_def fl_def)
  have ok_m: "never_early a (int c) [] [] hm"
    using ok by (simp add: hm_def never_early_append)
  have pend_m: "mset (pending_after [] hm)
      = image_mset future_frame (mset (remove1 (F j) (in_flight s)))"
  proof (cases "F j \<in> set (in_flight s)")
    case True
    then have "mset (pending_after [] hm) = mset (pending_after [] h) - {#future_frame (F j)#}"
      by (simp add: hm_def pending_after_append)
    also have "\<dots> = image_mset future_frame (mset (in_flight s) - {#F j#})"
      using True pend by (simp add: image_mset_Diff)
    finally show ?thesis by simp
  next
    case False
    then show ?thesis using pend by (simp add: hm_def remove1_idem)
  qed
  have res_mono: "set (resolved_after [] h) \<subseteq> set (resolved_after [] hm)"
    using resolved_after_mono [of "resolved_after [] h" "[Resolved (F j)]"]
    by (auto simp: hm_def resolved_after_append)
  have Fj_resolved: "future_frame (F j) \<in> set (resolved_after [] hm)"
  proof (cases "F j \<in> set (in_flight s)")
    case True
    then show ?thesis by (simp add: hm_def resolved_after_append)
  next
    case False
    have "F j \<in> set (buffer s)" using last_F len_buf c0 by (metis last_in_set length_greater_0_conv)
    with False res have "future_frame (F j) \<in> set (resolved_after [] h)" by blast
    with res_mono show ?thesis by blast
  qed
  have split: "buffer s = butlast (buffer s) @ [F j]"
    using last_F len_buf c0 by (metis append_butlast_last_id length_greater_0_conv)
  have Fj_notin: "F j \<notin> set (butlast (buffer s))"
    using db split by (metis distinct_append disjoint_iff list.set_intros(1) set_append Un_iff)
  have rest_sub: "set (remove1 (F j) (in_flight s)) \<subseteq> set (butlast (buffer s))"
  proof
    fix f assume "f \<in> set (remove1 (F j) (in_flight s))"
    with di have "f \<in> set (in_flight s)" and ne: "f \<noteq> F j" by auto
    with sub have "f \<in> set (buffer s)" by auto
    then have "f \<in> set (butlast (buffer s) @ [F j])" using split by simp
    with ne show "f \<in> set (butlast (buffer s))" by auto
  qed
  have check: "future_frame new - int c < a
      \<or> (future_frame new - int c \<in> set (resolved_after [] hm)
          \<and> future_frame new - int c \<notin> set (pending_after [] hm))"
  proof (cases "j < c")
    case True
    then show ?thesis by (simp add: new_def new_frame)
  next
    case False
    then have cj: "c \<le> j" by simp
    then have Fj_frame: "future_frame (F j) = a + int j - int c"
      by (simp add: F_def issued_def issue_frame_def)
    have nf: "future_frame new - int c = a + int j - int c"
      by (simp add: new_def new_frame)
    have "a + int j - int c \<notin> set (pending_after [] hm)"
    proof
      assume "a + int j - int c \<in> set (pending_after [] hm)"
      moreover have "set (pending_after [] hm)
          = future_frame ` set (remove1 (F j) (in_flight s))"
        by (metis pend_m set_image_mset set_mset_mset)
      ultimately obtain f where f: "f \<in> set (remove1 (F j) (in_flight s))"
        and ff: "future_frame f = a + int j - int c"
        by (auto simp only: image_iff)
      from f rest_sub bl_set have "f \<in> F ` {Suc j ..< j + c}" by blast
      then obtain n where n: "Suc j \<le> n" "n < j + c" and fn: "f = F n"
        by (auto simp: image_iff)
      from issue_frame_fresh [of c j n a] cj n have "issue_frame a c n \<noteq> a + int j - int c"
        by simp
      with ff fn show False by (simp add: F_def issued_def)
    qed
    with Fj_resolved Fj_frame nf show ?thesis by simp
  qed
  let ?h = "hm @ [Requested new]"
  have ok': "never_early a (int c) [] [] ?h"
    using ok_m check by (simp add: never_early_append)
  have pend': "mset (pending_after [] ?h) = image_mset future_frame (mset (in_flight s'))"
    using pend_m inf' by (simp add: pending_after_append)
  have res': "\<forall>f\<in>set (buffer s'). f \<notin> set (in_flight s')
                    \<longrightarrow> future_frame f \<in> set (resolved_after [] ?h)"
  proof (intro ballI impI)
    fix f assume f: "f \<in> set (buffer s')" and nf: "f \<notin> set (in_flight s')"
    from nf inf' have f_new: "f \<noteq> new" and f_rest: "f \<notin> set (remove1 (F j) (in_flight s))"
      by auto
    from f buf' have "f \<in> set (new # butlast (buffer s))"
      using rev_window_shift(1) [OF c0, of F j] by (simp add: new_F buf)
    with f_new have fb: "f \<in> set (butlast (buffer s))" by simp
    with Fj_notin have "f \<noteq> F j" by auto
    with f_rest di have "f \<notin> set (in_flight s)" by auto
    moreover from fb have "f \<in> set (buffer s)" by (rule in_set_butlastD)
    ultimately have "future_frame f \<in> set (resolved_after [] h)" using res by blast
    with res_mono show "future_frame f \<in> set (resolved_after [] ?h)"
      by (auto simp: resolved_after_append)
  qed
  from hist' ok' pend' res' have ex:
    "\<exists>h. history s' = h0 @ h \<and> never_early a (int c) [] [] h
        \<and> mset (pending_after [] h) = image_mset future_frame (mset (in_flight s'))
        \<and> (\<forall>f\<in>set (buffer s'). f \<notin> set (in_flight s')
               \<longrightarrow> future_frame f \<in> set (resolved_after [] h))"
    by blast
  have "0 \<le> FrameInterval_value (frames_left s')" using fl' pos by (simp add: fl_def)
  moreover have "FrameInterval_value (frames_left s') \<le> FrameInterval_value (total_frames s')"
    using fl' fl_tot w by (simp add: tot_def)
  moreover have "Frame_value (end_frame s') + 1 - FrameInterval_value (total_frames s') = a"
    using a w by (simp add: tot_def)
  moreover have "int c \<le> FrameInterval_value (total_frames s')"
    using c_tot w by (simp add: tot_def)
  moreover have "buffer s' = rev (map (issued base a c)
      [nat (FrameInterval_value (total_frames s') - FrameInterval_value (frames_left s')) ..<
       nat (FrameInterval_value (total_frames s') - FrameInterval_value (frames_left s')) + c])"
    using buf' by (simp only: j' F_def)
  moreover have "length (requests s')
      = base + c + nat (FrameInterval_value (total_frames s') - FrameInterval_value (frames_left s'))"
    using reqs' by (simp only: j')
  ultimately show ?thesis
    unfolding order_inv_def using c0 ex by blast
qed

lemma length_news: "length (news b st offs) = length offs"
  by (induction offs arbitrary: b) simp_all

lemma news_upt:
  "news b st [i ..< i + c] = map (\<lambda>n. Future (b + n) (st + int (i + n))) [0 ..< c]"
proof (induction c arbitrary: b i)
  case 0
  show ?case by simp
next
  case (Suc c)
  have "[i ..< i + Suc c] = i # [Suc i ..< Suc i + c]" by (simp add: upt_conv_Cons)
  then have "news b st [i ..< i + Suc c] = Future b (st + int i) # news (Suc b) st [Suc i ..< Suc i + c]"
    by simp
  also have "\<dots> = Future b (st + int i)
      # map (\<lambda>n. Future (Suc b + n) (st + int (Suc i + n))) [0 ..< c]"
    by (simp only: Suc.IH)
  also have "\<dots> = map (\<lambda>n. Future (b + n) (st + int (i + n))) (0 # map Suc [0 ..< c])"
    by simp
  also have "0 # map Suc [0 ..< c] = [0 ..< Suc c]"
    by (simp add: map_Suc_upt upt_conv_Cons)
  finally show ?case .
qed

lemma news_issued:
  "news base a [0 ..< c] = map (issued base a c) [0 ..< c]"
proof -
  have "news base a [0 ..< 0 + c] = map (\<lambda>n. Future (base + n) (a + int (0 + n))) [0 ..< c]"
    by (rule news_upt)
  also have "\<dots> = map (issued base a c) [0 ..< c]"
    by (rule map_cong) (simp_all add: issued_def issue_frame_def)
  finally show ?thesis by simp
qed

lemma run_loop_sequenced_lists:
  assumes "\<not> unsequenced s" and "buffer_maxlen s = Some k"
    and "length (buffer s) + length offs \<le> k" and "run_loop now offs s = Inr s'"
  shows "buffer s' = rev (news (length (requests s)) (Frame_value (start_frame s)) offs) @ buffer s
       \<and> in_flight s' = in_flight s @ news (length (requests s)) (Frame_value (start_frame s)) offs
       \<and> history s' = history s
           @ map Requested (news (length (requests s)) (Frame_value (start_frame s)) offs)"
  using assms
proof (induction offs arbitrary: s)
  case Nil
  then show ?case by simp
next
  case (Cons off offs)
  from Cons.prems(4) obtain s1 where s1: "run_body now off s = Inr s1"
    and rest: "run_loop now offs s1 = Inr s'"
    by (auto split: sum.splits)
  note st = run_body_sequenced [OF Cons.prems(1) s1]
  note w = same_widgets_fields [OF st(1)]
  let ?new = "Future (length (requests s)) (Frame_value (start_frame s) + int off)"
  have buf1: "buffer s1 = ?new # buffer s"
    using st(5) Cons.prems(2,3) by simp
  have "buffer s' = rev (news (length (requests s1)) (Frame_value (start_frame s1)) offs) @ buffer s1
       \<and> in_flight s' = in_flight s1 @ news (length (requests s1)) (Frame_value (start_frame s1)) offs
       \<and> history s' = history s1
           @ map Requested (news (length (requests s1)) (Frame_value (start_frame s1)) offs)"
  proof (rule Cons.IH)
    show "\<not> unsequenced s1" using w Cons.prems(1) by simp
    show "buffer_maxlen s1 = Some k" using w Cons.prems(2) by simp
    show "length (buffer s1) + length offs \<le> k" using buf1 Cons.prems(3) by simp
    show "run_loop now offs s1 = Inr s'" by (rule rest)
  qed
  then show ?case
    using buf1 st(3) st(4) w run_body_sequenced_history [OF Cons.prems(1) s1] by simp
qed

lemma never_early_requests:
  assumes "\<forall>f\<in>set fs. future_frame f - c < a"
  shows "never_early a c R P (map Requested fs)"
  using assms by (induction fs arbitrary: P) simp_all

lemma pending_after_requests:
  "pending_after P (map Requested fs) = rev (map future_frame fs) @ P"
  by (induction fs arbitrary: P) simp_all

lemma resolved_after_requests: "resolved_after R (map Requested fs) = R"
  by (induction fs) simp_all

lemma fire_keeps_mode:
  assumes "\<not> starts_run e s" and "fire e s = Inr s'"
  shows "unsequenced s' = unsequenced s"
proof (cases e)
  case (Click now cpus)
  with assms have "abort now (set_ui_editable True (s\<lparr>run_abort_button := False\<rparr>)) = Inr s'"
    by (simp add: on_run_abort_pressed_def)
  from same_run_fields(9) [OF conjunct1 [OF abort_same [OF this]]]
  show ?thesis by (simp add: set_ui_editable_def)
next
  case (Sequenced_timeout now)
  with assms(2) have step: "request_next_frame_sequenced now s = Inr s'" by simp
  show ?thesis
  proof (cases "0 < FrameInterval_value (frames_left s)")
    case True
    from same_widgets_fields(6) [OF sequenced_step(1) [OF True step]] show ?thesis .
  next
    case False
    with step have "abort now s = Inr s'"
      by (simp add: request_next_frame_sequenced_def le_zero_eval)
    from same_run_fields(9) [OF conjunct1 [OF abort_same [OF this]]] show ?thesis .
  qed
next
  case (Update_info_timeout now)
  with assms(2) have "update_info now s = Inr s'" by simp
  from same_run_fields(9) [OF update_info_same [OF this]] show ?thesis .
next
  case (Future_done fut now)
  show ?thesis
  proof (cases "fut \<in> set (callbacks s)")
    case True
    with Future_done assms(2) have cbk:
      "request_next_frame_unsequenced (Some fut) now (result fut s) = Inr s'" by simp
    show ?thesis
    proof (cases "0 < FrameInterval_value (frames_left (result fut s))")
      case pos: True
      from same_widgets_fields(6) [OF unsequenced_step(1) [OF pos cbk]]
      show ?thesis by (simp add: result_fields)
    next
      case False
      with cbk have "abort now (result fut s) = Inr s'"
        by (simp add: request_next_frame_unsequenced_def le_zero_eval)
      from same_run_fields(9) [OF conjunct1 [OF abort_same [OF this]]]
      show ?thesis by (simp add: result_fields)
    qed
  next
    case False
    with Future_done assms(2) show ?thesis by (auto simp: result_fields)
  qed
next
  case (Edit_controls st en tot pre unseq)
  with assms(2) show ?thesis by auto
qed

lemma fire_order_inv:
  assumes sinv: "sequenced_inv c s" and oinv: "order_inv base a c h0 s"
    and en: "enabled e s" and ns: "\<not> starts_run e s" and f: "fire e s = Inr s'"
  shows "order_inv base a c h0 s'"
proof (cases e)
  case (Click now cpus)
  with ns f have ab: "abort now (set_ui_editable True (s\<lparr>run_abort_button := False\<rparr>)) = Inr s'"
    by (simp add: on_run_abort_pressed_def)
  have "order_inv base a c h0 (set_ui_editable True (s\<lparr>run_abort_button := False\<rparr>))
      = order_inv base a c h0 s"
    by (rule order_inv_cong) (simp_all add: set_ui_editable_def)
  with oinv have "order_inv base a c h0 (set_ui_editable True (s\<lparr>run_abort_button := False\<rparr>))"
    by simp
  with abort_same [OF ab] show ?thesis by (blast intro: order_inv_same_run)
next
  case (Sequenced_timeout now)
  with f have step: "request_next_frame_sequenced now s = Inr s'" by simp
  show ?thesis
  proof (cases "0 < FrameInterval_value (frames_left s)")
    case True
    from sinv oinv True step show ?thesis by (rule order_inv_tick)
  next
    case False
    with step have "abort now s = Inr s'"
      by (simp add: request_next_frame_sequenced_def le_zero_eval)
    with abort_same oinv show ?thesis by (blast intro: order_inv_same_run)
  qed
next
  case (Update_info_timeout now)
  with f have "update_info now s = Inr s'" by simp
  with update_info_same oinv show ?thesis by (blast intro: order_inv_same_run)
next
  case (Future_done fut now)
  with en have mem: "fut \<in> set (in_flight s)" by simp
  from sinv have "set (in_flight s) \<subseteq> set (buffer s)" "set (buffer s) \<inter> set (callbacks s) = {}"
    by (simp_all add: sequenced_inv_def)
  with mem have "fut \<notin> set (callbacks s)" by auto
  with Future_done f have "s' = result fut s" by simp
  with order_inv_resolve [OF oinv mem] show ?thesis by simp
next
  case (Edit_controls st en tot pre unseq)
  with f have s': "s' = s\<lparr>start_frame_control := st, end_frame_control := en,
      total_frames_control := tot, prefetch_checkbox := pre, unsequenced_checkbox := unseq\<rparr>"
    by simp
  have "order_inv base a c h0 s' = order_inv base a c h0 s"
    by (rule order_inv_cong) (simp_all add: s')
  with oinv show ?thesis by simp
qed

lemma exec_order_inv:
  assumes "\<not> unsequenced s" and "run_inv c s" and "order_inv base a c h0 s"
    and "during_run es s" and "exec es s = Inr s'"
  shows "order_inv base a c h0 s'"
  using assms
proof (induction es arbitrary: s)
  case Nil
  then show ?case by simp
next
  case (Cons e es)
  from Cons.prems(5) obtain s1 where s1: "fire e s = Inr s1" and rest: "exec es s1 = Inr s'"
    by (auto split: sum.splits)
  from Cons.prems(4) s1 have en: "enabled e s" and ns: "\<not> starts_run e s"
    and dr: "during_run es s1" by simp_all
  from Cons.prems(1,2) have sinv: "sequenced_inv c s" by (simp add: run_inv_def)
  have "\<not> unsequenced s1" using fire_keeps_mode [OF ns s1] Cons.prems(1) by simp
  moreover have "run_inv c s1" using Cons.prems(2) en ns s1 by (rule fire_run_inv)
  moreover have "order_inv base a c h0 s1" using sinv Cons.prems(3) en ns s1 by (rule fire_order_inv)
  ultimately show ?case using dr rest by (rule Cons.IH)
qed

lemma run_establishes_order:
  assumes q: "quiescent s0" and seq: "\<not> unsequenced_checkbox s0"
    and range: "FrameInterval_value (total_frames_control s0)
                  = Frame_value (end_frame_control s0) - Frame_value (start_frame_control s0) + 1"
    and c1: "1 \<le> concurrent_requests_count s0 cpus"
    and c2: "concurrent_requests_count s0 cpus \<le> FrameInterval_value (total_frames_control s0)"
    and r: "run now cpus s0 = Inr s1"
  shows "order_inv (length (requests s0)) (Frame_value (start_frame_control s0))
           (nat (concurrent_requests_count s0 cpus)) (history s0) s1"
    and "\<not> unsequenced s1"
proof -
  define cc where "cc = concurrent_requests_count s0 cpus"
  define c where "c = nat cc"
  define tot where "tot = FrameInterval_value (total_frames_control s0)"
  define a where "a = Frame_value (start_frame_control s0)"
  define base where "base = length (requests s0)"
  define s4 where "s4 =
      s0\<lparr>start_frame := start_frame_control s0, end_frame := end_frame_control s0,
         total_frames := total_frames_control s0, frames_left := total_frames_control s0,
         unsequenced := unsequenced_checkbox s0,
         buffer := [], buffer_maxlen := Some (nat cc), sequenced_timer := True,
         running := True, run_start_time := now\<rparr>"
  have c_int: "int c = cc" and c0: "0 < c" using c1 by (simp_all add: c_def cc_def)
  have m: "nat (min tot cc) = c" using c2 by (simp add: c_def cc_def tot_def)
  from r seq obtain s5 where
    loop: "run_loop now [0 ..< c] s4 = Inr s5"
    and s1: "s1 = s5\<lparr>update_info_timer := True\<rparr>"
    unfolding m [symmetric]
    by (auto simp: run_def Let_def cc_def tot_def s4_def concurrent_requests_count_def
          split: sum.splits if_splits)
  have seq4: "\<not> unsequenced s4" using seq by (simp add: s4_def)
  have ml4: "buffer_maxlen s4 = Some c" by (simp add: s4_def c_def)
  have room: "length (buffer s4) + length [0 ..< c] \<le> c" by (simp add: s4_def)
  note l = run_loop_sequenced_lists [OF seq4 ml4 room loop]
  note rr = run_loop_result [OF loop]
  have w: "same_widgets s4 s5" using rr seq4 by simp
  note wf = same_widgets_fields [OF w]
  define fs where "fs = map (issued base a c) [0 ..< c]"
  have nw: "news (length (requests s4)) (Frame_value (start_frame s4)) [0 ..< c] = fs"
    by (simp add: s4_def news_issued base_def a_def fs_def)
  have buf: "buffer s5 = rev fs" using l nw by (simp add: s4_def)
  have inf: "in_flight s5 = fs" using l nw q by (simp add: s4_def quiescent_def)
  have hist: "history s5 = history s0 @ map Requested fs" using l nw by (simp add: s4_def)
  have reqs: "length (requests s5) = base + c" using rr seq4 by (simp add: s4_def base_def)
  have fl: "FrameInterval_value (frames_left s5) = tot" using rr seq4 by (simp add: s4_def tot_def)
  have tf: "FrameInterval_value (total_frames s5) = tot" using wf by (simp add: s4_def tot_def)
  have ef: "Frame_value (end_frame s5) + 1 - tot = a"
    using wf range by (simp add: s4_def tot_def a_def)
  have early: "\<forall>f\<in>set fs. future_frame f - int c < a"
    by (auto simp: fs_def issued_def issue_frame_def)
  have ok: "never_early a (int c) [] [] (map Requested fs)"
    using early by (rule never_early_requests)
  have pend: "mset (pending_after [] (map Requested fs)) = image_mset future_frame (mset fs)"
    by (simp add: pending_after_requests)
  have res: "\<forall>f\<in>set (buffer s5). f \<notin> set (in_flight s5)
      \<longrightarrow> future_frame f \<in> set (resolved_after [] (map Requested fs))"
    using buf inf by simp
  from hist ok pend res inf have ex:
    "\<exists>h. history s5 = history s0 @ h \<and> never_early a (int c) [] [] h
        \<and> mset (pending_after [] h) = image_mset future_frame (mset (in_flight s5))
        \<and> (\<forall>f\<in>set (buffer s5). f \<notin> set (in_flight s5)
               \<longrightarrow> future_frame f \<in> set (resolved_after [] h))"
    by auto
  have tot_pos: "0 \<le> tot" "int c \<le> tot" using c1 c2 c_int by (simp_all add: tot_def cc_def)
  have "order_inv base a c (history s0) s5"
    unfolding order_inv_def fl tf
    using ex ef c0 tot_pos buf reqs by (simp add: fs_def)
  moreover have "order_inv base a c (history s0) s1 = order_inv base a c (history s0) s5"
    by (rule order_inv_cong) (simp_all add: s1)
  ultimately show "order_inv (length (requests s0)) (Frame_value (start_frame_control s0))
           (nat (concurrent_requests_count s0 cpus)) (history s0) s1"
    by (simp add: base_def a_def c_def cc_def)
  show "\<not> unsequenced s1" using wf seq4 s1 by simp
qed

text \<open>
  What the code does keep. For a run started in a quiescent state (no request of an
  earlier run outstanding and, for an unsequenced run, the sequenced timer not left
  active by an earlier sequenced one), \<open>run\<close> issues exactly
  \<open>max(0, min(total, concurrency))\<close> requests, and after any events of that run
  (timeouts, resolving futures in any order, refreshes, an abort, edits of the controls)
  at most \<open>concurrency\<close> requests are in flight. And when the run is sequenced, on a
  range \<open>start\<close> to \<open>end\<close> of \<open>total = end - start + 1\<close> frames with
  \<open>1 <= concurrency <= total\<close>, the history of the run passes \<open>never_early\<close>: no
  frame \<open>k\<close> with \<open>k - concurrency >= start\<close> is requested before a request for
  \<open>k - concurrency\<close> has resolved, and none for it is in flight then. The instance
  after it is the range 0 to 9 with concurrency 3.
\<close>

theorem in_flight_bounded:
  assumes "quiescent s0" and "run now cpus s0 = Inr s1"
    and "during_run es s1" and "exec es s1 = Inr s"
  shows "length (requests s1) = length (requests s0)
           + nat (min (FrameInterval_value (total_frames_control s0))
                      (concurrent_requests_count s0 cpus))
       \<and> length (in_flight s) \<le> nat (concurrent_requests_count s0 cpus)
       \<and> (\<not> unsequenced_checkbox s0
            \<and> FrameInterval_value (total_frames_control s0)
                = Frame_value (end_frame_control s0) - Frame_value (start_frame_control s0) + 1
            \<and> 1 \<le> concurrent_requests_count s0 cpus
            \<and> concurrent_requests_count s0 cpus \<le> FrameInterval_value (total_frames_control s0)
            \<longrightarrow> (\<exists>h. history s = history s0 @ h
                   \<and> never_early (Frame_value (start_frame_control s0))
                        (concurrent_requests_count s0 cpus) [] [] h))"
proof (intro conjI impI)
  show "length (requests s1) = length (requests s0)
           + nat (min (FrameInterval_value (total_frames_control s0))
                      (concurrent_requests_count s0 cpus))"
    using assms(2) by (rule run_result(10))
  from run_establishes_inv [OF assms(1,2)] assms(3,4)
  have "run_inv (nat (concurrent_requests_count s0 cpus)) s" by (rule exec_run_inv)
  then show "length (in_flight s) \<le> nat (concurrent_requests_count s0 cpus)"
    by (rule run_inv_bound)
next
  assume h: "\<not> unsequenced_checkbox s0
            \<and> FrameInterval_value (total_frames_control s0)
                = Frame_value (end_frame_control s0) - Frame_value (start_frame_control s0) + 1
            \<and> 1 \<le> concurrent_requests_count s0 cpus
            \<and> concurrent_requests_count s0 cpus \<le> FrameInterval_value (total_frames_control s0)"
  then have c: "int (nat (concurrent_requests_count s0 cpus)) = concurrent_requests_count s0 cpus"
    by simp
  from h have o1: "order_inv (length (requests s0)) (Frame_value (start_frame_control s0))
           (nat (concurrent_requests_count s0 cpus)) (history s0) s1"
    and m1: "\<not> unsequenced s1"
    using run_establishes_order [OF assms(1) _ _ _ _ assms(2)] by blast+
  from m1 run_establishes_inv [OF assms(1,2)] o1 assms(3,4)
  have "order_inv (length (requests s0)) (Frame_value (start_frame_control s0))
           (nat (concurrent_requests_count s0 cpus)) (history s0) s"
    by (rule exec_order_inv)
  then show "\<exists>h. history s = history s0 @ h
                   \<and> never_early (Frame_value (start_frame_control s0))
                        (concurrent_requests_count s0 cpus) [] [] h"
    unfolding order_inv_def c by blast
qed

theorem in_flight_bounded_witness:
  "quiescent (init\<lparr>end_frame_control := Frame_obj 9, total_frames_control := FrameInterval_obj 10,
                   unsequenced_checkbox := False\<rparr>)
   \<and> (\<exists>s1 s. run 0 3 (init\<lparr>end_frame_control := Frame_obj 9,
                            total_frames_control := FrameInterval_obj 10,
                            unsequenced_checkbox := False\<rparr>) = Inr s1
        \<and> during_run [Sequenced_timeout 1, Future_done (Future 2 2) 2, Sequenced_timeout 3,
                       Update_info_timeout 4, Sequenced_timeout 5, Sequenced_timeout 6,
                       Sequenced_timeout 7] s1
        \<and> exec [Sequenced_timeout 1, Future_done (Future 2 2) 2, Sequenced_timeout 3,
                 Update_info_timeout 4, Sequenced_timeout 5, Sequenced_timeout 6,
                 Sequenced_timeout 7] s1 = Inr s
        \<and> length (requests s1) = 3 \<and> length (in_flight s) \<le> 3
        \<and> never_early 0 3 [] [] (history s))"
proof -
  let ?s0 = "init\<lparr>end_frame_control := Frame_obj 9, total_frames_control := FrameInterval_obj 10,
                   unsequenced_checkbox := False\<rparr>"
  let ?es = "[Sequenced_timeout 1, Future_done (Future 2 2) 2, Sequenced_timeout 3,
              Update_info_timeout 4, Sequenced_timeout 5, Sequenced_timeout 6,
              Sequenced_timeout 7]"
  define s1 where "s1 = projr (run 0 3 ?s0)"
  define s where "s = projr (exec ?es s1)"
  have q: "quiescent ?s0" by (simp add: quiescent_def init_def)
  have r: "run 0 3 ?s0 = Inr s1" unfolding s1_def by code_simp
  have d: "during_run ?es s1" unfolding s1_def by code_simp
  have e: "exec ?es s1 = Inr s" unfolding s_def s1_def by code_simp
  have c: "concurrent_requests_count ?s0 3 = 3" by (simp add: concurrent_requests_count_def init_def)
  have t: "FrameInterval_value (total_frames_control ?s0) = 10" by simp
  have n: "length (requests ?s0) = 0" by (simp add: init_def)
  have u: "unsequenced_checkbox ?s0 = False" by simp
  have st: "Frame_value (start_frame_control ?s0) = 0" by (simp add: init_def)
  have en: "Frame_value (end_frame_control ?s0) = 9" by simp
  have h0: "history ?s0 = []" by (simp add: init_def)
  note b = in_flight_bounded [OF q r d e, unfolded c t n u st en h0]
  from b have "length (requests s1) = 3" and "length (in_flight s) \<le> 3"
    and "never_early 0 3 [] [] (history s)" by simp_all
  with q r d e show ?thesis by (intro conjI exI [of _ s1] exI [of _ s])
qed

text \<open>
  C4. The claim: at every point during a run, the number of requests in flight is at
  most the concurrency. The code: \<open>sequenced_timer\<close> is started by a sequenced run and
  stopped by nothing, neither by \<open>abort\<close> nor by the completion of the run, and
  \<open>_request_next_frame_sequenced\<close> does not test \<open>running\<close>. A sequenced run over
  frames 0 to 9 at concurrency 3 is started, runs to completion (ten timeouts, the
  eleventh calls \<open>abort\<close>), and its last three futures resolve: the toolbar is idle, no
  request is outstanding, the timer is still active. The user ticks Unsequenced and
  starts a run at concurrency 3, which issues its three requests. Three timeouts of the
  timer follow; each takes a resolved future of the old run from the deque and requests
  the next frame of the new run. Six requests of the unsequenced run are in flight.
\<close>

theorem sequenced_timer_in_flight:
  "feasible ([Edit_controls (Frame_obj 0) (Frame_obj 9) (FrameInterval_obj 10) True False,
              Click 0 3]
             @ map Sequenced_timeout [1, 2, 3, 4, 5, 6, 7, 8, 9, 10, 11]
             @ [Future_done (Future 10 7) 12, Future_done (Future 11 8) 12,
                Future_done (Future 12 9) 12,
                Edit_controls (Frame_obj 0) (Frame_obj 9) (FrameInterval_obj 10) True True,
                Click 13 3, Sequenced_timeout 14, Sequenced_timeout 15, Sequenced_timeout 16]) init
   \<and> map_sum id (\<lambda>s. (running s, sequenced_timer s, in_flight s))
       (exec ([Edit_controls (Frame_obj 0) (Frame_obj 9) (FrameInterval_obj 10) True False,
               Click 0 3]
              @ map Sequenced_timeout [1, 2, 3, 4, 5, 6, 7, 8, 9, 10, 11]
              @ [Future_done (Future 10 7) 12, Future_done (Future 11 8) 12,
                 Future_done (Future 12 9) 12]) init)
     = Inr (False, True, [])
   \<and> map_sum id (\<lambda>s. (running s, unsequenced s, concurrent_requests_count s 3, in_flight s))
       (exec ([Edit_controls (Frame_obj 0) (Frame_obj 9) (FrameInterval_obj 10) True False,
               Click 0 3]
              @ map Sequenced_timeout [1, 2, 3, 4, 5, 6, 7, 8, 9, 10, 11]
              @ [Future_done (Future 10 7) 12, Future_done (Future 11 8) 12,
                 Future_done (Future 12 9) 12,
                 Edit_controls (Frame_obj 0) (Frame_obj 9) (FrameInterval_obj 10) True True,
                 Click 13 3, Sequenced_timeout 14, Sequenced_timeout 15, Sequenced_timeout 16]) init)
     = Inr (True, True, 3,
            [Future 13 0, Future 14 1, Future 15 2, Future 16 3, Future 17 4, Future 18 5])"
  by code_simp

end
